theory Spec2Isabelle
  imports Main "HOL-Library.Sublist" "HOL-Library.Char_ord" "HOL-Library.List_Lexorder"
begin

section \<open>Configuration objects in a store\<close>

text \<open>
  \<^verbatim>\<open>merge\<close> and \<^verbatim>\<open>explode\<close> of \<^verbatim>\<open>ctemplate.ts\<close> mutate JavaScript objects in
  place, and \<^verbatim>\<open>dest[key] = src[key]\<close> stores a reference, so that one object can be
  reached along two paths afterwards. The model therefore keeps objects in a store:
  an address names an object, a value is a scalar or a reference to an object, and an
  object is a dictionary (own properties in enumeration order) or an array.

  Strings are lists of 8-bit characters; numbers are integers. Neither function looks
  inside a scalar; a function is a scalar here (a value that is neither a dictionary
  nor an array) and \<open>SFun\<close> carries its name.

  Every dictionary inherits from \<^verbatim>\<open>Object.prototype\<close>, as the objects of \<^verbatim>\<open>JSON.parse\<close>
  and of the literal \<^verbatim>\<open>{}\<close> do. \<^verbatim>\<open>Object.prototype\<close> is the object at the address
  \<open>object_prototype\<close> of the store; the dictionary kept there lists the properties that
  have been added to it, which are enumerable. The members it is born with are not
  enumerable and are not kept in the store: \<open>builtin_names\<close> are its functions and
  \<^verbatim>\<open>__proto__\<close> is its accessor.
\<close>

datatype scalar = SUndef | SNull | SBool bool | SNum int | SStr string | SFun string

type_synonym addr = nat

datatype val = Scalar scalar | Ref addr

datatype obj = Dict "(string \<times> val) list" | Arr "val list"

type_synonym store = "obj list"

text \<open>The thrown \<^verbatim>\<open>Error\<close> with its message. \<open>IllTyped\<close> marks a call outside the
  TypeScript signature (an argument of type \<^verbatim>\<open>Dict\<close> that is no dictionary); no call
  made by \<^verbatim>\<open>processFiles\<close> reaches it.\<close>

datatype error = Error string | IllTyped

definition lookup :: "store \<Rightarrow> addr \<Rightarrow> obj option" where
  "lookup h a = (if a < length h then Some (h ! a) else None)"

text \<open>\<^verbatim>\<open>isDict(o)\<close>: \<^verbatim>\<open>o && typeof o === "object" && !Array.isArray(o)\<close>.\<close>

fun isDict :: "store \<Rightarrow> val \<Rightarrow> bool" where
  "isDict h (Scalar s) = False"
| "isDict h (Ref a) = (case lookup h a of Some (Dict es) \<Rightarrow> True | _ \<Rightarrow> False)"

fun isArray :: "store \<Rightarrow> val \<Rightarrow> bool" where
  "isArray h (Scalar s) = False"
| "isArray h (Ref a) = (case lookup h a of Some (Arr vs) \<Rightarrow> True | _ \<Rightarrow> False)"

fun the_addr :: "val \<Rightarrow> addr" where
  "the_addr (Ref a) = a"
| "the_addr (Scalar s) = 0"

definition props :: "store \<Rightarrow> addr \<Rightarrow> (string \<times> val) list" where
  "props h a = (case lookup h a of Some (Dict es) \<Rightarrow> es | _ \<Rightarrow> [])"

definition elems :: "store \<Rightarrow> addr \<Rightarrow> val list" where
  "elems h a = (case lookup h a of Some (Arr vs) \<Rightarrow> vs | _ \<Rightarrow> [])"

text \<open>\<^verbatim>\<open>Object.keys(o)\<close>: the own property names, in order.\<close>

definition own_keys :: "store \<Rightarrow> addr \<Rightarrow> string list" where
  "own_keys h a = map fst (props h a)"

text \<open>\<^verbatim>\<open>o[key]\<close> for a key among \<^verbatim>\<open>Object.keys(o)\<close>: the value of the own property
  (\<^verbatim>\<open>undefined\<close> when there is none).\<close>

definition get_prop :: "(string \<times> val) list \<Rightarrow> string \<Rightarrow> val" where
  "get_prop es k = (case map_of es k of Some v \<Rightarrow> v | None \<Rightarrow> Scalar SUndef)"

subsection \<open>\<^verbatim>\<open>Object.prototype\<close>\<close>

definition object_prototype :: addr where
  "object_prototype = 0"

text \<open>The store in which nothing but \<^verbatim>\<open>Object.prototype\<close> exists, with nothing added to
  it.\<close>

definition pristine :: store where
  "pristine = [Dict []]"

text \<open>The names of \<^verbatim>\<open>Object.getOwnPropertyNames(Object.prototype)\<close>: the functions, and
  with the accessor \<^verbatim>\<open>__proto__\<close> all the names that every dictionary inherits from the
  start.\<close>

definition builtin_names :: "string list" where
  "builtin_names =
     [''constructor'', ''__defineGetter__'', ''__defineSetter__'', ''hasOwnProperty'',
      ''__lookupGetter__'', ''__lookupSetter__'', ''isPrototypeOf'', ''propertyIsEnumerable'',
      ''toString'', ''valueOf'', ''toLocaleString'']"

definition inherited_names :: "string list" where
  "inherited_names = ''__proto__'' # builtin_names"

text \<open>The enumerable properties that the object at \<open>a\<close> inherits: those added to
  \<^verbatim>\<open>Object.prototype\<close>, which itself inherits nothing.\<close>

definition inherited :: "store \<Rightarrow> addr \<Rightarrow> (string \<times> val) list" where
  "inherited h a = (if a = object_prototype then [] else props h object_prototype)"

text \<open>\<^verbatim>\<open>key in o\<close>: an own property, or one found through the prototype.\<close>

definition has_key :: "store \<Rightarrow> addr \<Rightarrow> string \<Rightarrow> bool" where
  "has_key h a k =
     (k \<in> set (own_keys h a) \<or> k \<in> set (map fst (inherited h a)) \<or> k \<in> set inherited_names)"

text \<open>
  \<^verbatim>\<open>o[key]\<close>: the own property first, then what the prototype gives. The accessor
  \<^verbatim>\<open>__proto__\<close> returns the prototype of the object it is read from:
  \<^verbatim>\<open>Object.prototype\<close> for a dictionary, \<^verbatim>\<open>null\<close> for \<^verbatim>\<open>Object.prototype\<close> itself.
\<close>

definition get_val :: "store \<Rightarrow> addr \<Rightarrow> string \<Rightarrow> val" where
  "get_val h a k =
     (case map_of (props h a) k of
       Some v \<Rightarrow> v
     | None \<Rightarrow>
         (case map_of (inherited h a) k of
           Some v \<Rightarrow> v
         | None \<Rightarrow>
             if k \<in> set builtin_names then Scalar (SFun k)
             else if k = ''__proto__'' then
               (if a = object_prototype then Scalar SNull else Ref object_prototype)
             else Scalar SUndef))"

text \<open>\<^verbatim>\<open>for (let key in o)\<close>: the own property names in order, then the enumerable
  names of the prototype that no own property hides. The list is taken when the loop
  starts; \<^verbatim>\<open>merge\<close> deletes nothing, so every name of it is visited.\<close>

definition forin_keys :: "store \<Rightarrow> addr \<Rightarrow> string list" where
  "forin_keys h a =
     own_keys h a @ filter (\<lambda>k. k \<notin> set (own_keys h a)) (map fst (inherited h a))"

subsection \<open>Property order\<close>

text \<open>
  JavaScript enumerates the own properties of an object with the array indices first
  (canonical decimal strings below \<open>2^32 - 1\<close>, in ascending numeric order) and the other
  names after them in the order of their creation. \<open>add_prop\<close> creates a property that
  the object does not have yet.
\<close>

definition digit_val :: "char \<Rightarrow> int" where
  "digit_val c = of_char c - 48"

definition index_val :: "string \<Rightarrow> int" where
  "index_val k = foldl (\<lambda>n c. 10 * n + digit_val c) 0 k"

definition is_index :: "string \<Rightarrow> bool" where
  "is_index k = (k \<noteq> [] \<and> list_all (\<lambda>c. c \<in> set ''0123456789'') k
     \<and> (length k = 1 \<or> hd k \<noteq> CHR ''0'') \<and> index_val k < 4294967295)"

definition before_index :: "string \<Rightarrow> string \<times> 'v \<Rightarrow> bool" where
  "before_index k e = (is_index (fst e) \<and> index_val (fst e) < index_val k)"

definition add_prop :: "string \<Rightarrow> 'v \<Rightarrow> (string \<times> 'v) list \<Rightarrow> (string \<times> 'v) list" where
  "add_prop k v es =
     (if is_index k
      then takeWhile (before_index k) es @ (k, v) # dropWhile (before_index k) es
      else es @ [(k, v)])"

text \<open>\<^verbatim>\<open>delete o[key]\<close>.\<close>

definition del_prop :: "string \<Rightarrow> (string \<times> 'v) list \<Rightarrow> (string \<times> 'v) list" where
  "del_prop k es = filter (\<lambda>e. fst e \<noteq> k) es"

text \<open>\<^verbatim>\<open>dest[key].push(...src[key])\<close>.\<close>

definition push :: "store \<Rightarrow> addr \<Rightarrow> val list \<Rightarrow> store" where
  "push h a vs = h[a := Arr (elems h a @ vs)]"

subsection \<open>merge\<close>

fun join :: "string \<Rightarrow> string list \<Rightarrow> string" where
  "join sep [] = []"
| "join sep [x] = x"
| "join sep (x # y # ys) = x @ sep @ join sep (y # ys)"

text \<open>The message of \<^verbatim>\<open>merge\<close>'s error for the key at \<open>p\<close> (\<^verbatim>\<open>[...path, key]\<close>).\<close>

definition conflict :: "string list \<Rightarrow> error" where
  "conflict p = Error (''merging of key '' @ [CHR 0x27] @ join ''.'' p @ [CHR 0x27] @ '' failed'')"

text \<open>
  \<open>merge_keys n ks h d s path\<close> runs the loop of \<^verbatim>\<open>merge(dest, src, path)\<close> over the keys
  \<open>ks\<close> still to visit, on the store \<open>h\<close>, with \<open>dest\<close> at \<open>d\<close> and \<open>src\<close> at \<open>s\<close>. The
  result is \<open>None\<close> when the nesting of the calls exceeds \<open>n\<close> (on a cyclic object the
  JavaScript does not return either), \<open>Some (Inl e)\<close> when \<open>e\<close> is thrown, and
  \<open>Some (Inr h')\<close> with the store after the call otherwise.

  \<^verbatim>\<open>key in dest\<close> is true for an inherited name too. For a function of
  \<^verbatim>\<open>Object.prototype\<close> that \<open>dest\<close> does not redefine, \<^verbatim>\<open>dest[key]\<close> is that function and
  the error is thrown; for \<^verbatim>\<open>__proto__\<close> it is \<^verbatim>\<open>Object.prototype\<close>, a dictionary, and a
  dictionary of \<open>src\<close> under that key is merged into \<^verbatim>\<open>Object.prototype\<close>. The assignment
  \<^verbatim>\<open>dest[key] = src[key]\<close> is reached only for a key that is not inherited, and creates
  an own property.
\<close>

fun merge_keys :: "nat \<Rightarrow> string list \<Rightarrow> store \<Rightarrow> addr \<Rightarrow> addr \<Rightarrow> string list
    \<Rightarrow> (error + store) option" where
  "merge_keys n [] h d s path = Some (Inr h)"
| "merge_keys n (k # ks) h d s path =
    (case (lookup h d, lookup h s) of
      (Some (Dict de), Some (Dict se)) \<Rightarrow>
        if has_key h d k then
          if isDict h (get_val h d k) \<and> isDict h (get_val h s k) then
            (case n of
              0 \<Rightarrow> None
            | Suc m \<Rightarrow>
                (case merge_keys m (forin_keys h (the_addr (get_val h s k))) h
                        (the_addr (get_val h d k)) (the_addr (get_val h s k)) (path @ [k]) of
                  Some (Inr h') \<Rightarrow> merge_keys n ks h' d s path
                | r \<Rightarrow> r))
          else if isArray h (get_val h d k) \<and> isArray h (get_val h s k) then
            merge_keys n ks
              (push h (the_addr (get_val h d k)) (elems h (the_addr (get_val h s k)))) d s path
          else Some (Inl (conflict (path @ [k])))
        else merge_keys n ks (h[d := Dict (add_prop k (get_val h s k) de)]) d s path
    | _ \<Rightarrow> Some (Inl IllTyped))"

declare merge_keys.simps [simp del]

definition merge :: "nat \<Rightarrow> store \<Rightarrow> addr \<Rightarrow> addr \<Rightarrow> string list \<Rightarrow> (error + store) option" where
  "merge n h d s path = merge_keys n (forin_keys h s) h d s path"

subsection \<open>explode\<close>

text \<open>\<^verbatim>\<open>key.split(".")\<close>.\<close>

fun split_dot :: "string \<Rightarrow> string list" where
  "split_dot [] = [[]]"
| "split_dot (c # cs) =
    (if c = CHR ''.'' then [] # split_dot cs
     else (case split_dot cs of x # xs \<Rightarrow> (c # x) # xs | [] \<Rightarrow> [[c]]))"

text \<open>
  The objects that \<^verbatim>\<open>head = {}\<close>, the \<^verbatim>\<open>reduce\<close> and \<^verbatim>\<open>tail[last] = value\<close> create for the
  segments \<open>list\<close>, at consecutive fresh addresses from \<open>a\<close> on; \<open>head\<close> is at \<open>a\<close>. Each
  assignment creates an own property, also under the name of a function of
  \<^verbatim>\<open>Object.prototype\<close>. (Under the name \<^verbatim>\<open>__proto__\<close> the assignment would replace the
  prototype of the object instead; a dotted key with such a segment is not modelled.)
\<close>

fun chain :: "addr \<Rightarrow> string list \<Rightarrow> val \<Rightarrow> obj list" where
  "chain a [] v = []"
| "chain a [k] v = [Dict [(k, v)]]"
| "chain a (k # k' # ks) v = Dict [(k, Ref (Suc a))] # chain (Suc a) (k' # ks) v"

text \<open>
  \<open>explode_keys n ks h a path\<close> runs the \<^verbatim>\<open>forEach\<close> of \<^verbatim>\<open>explode(o, path)\<close> over the keys
  \<open>ks\<close> still to visit (the list \<^verbatim>\<open>Object.keys(o)\<close> is taken once, before the loop), with
  \<open>o\<close> at \<open>a\<close>. \<open>value\<close> is read before the key is deleted and is exploded after the
  merge, as in the source.
\<close>

fun explode_keys :: "nat \<Rightarrow> string list \<Rightarrow> store \<Rightarrow> addr \<Rightarrow> string list
    \<Rightarrow> (error + store) option" where
  "explode_keys n [] h a path = Some (Inr h)"
| "explode_keys n (key # ks) h a path =
    (case lookup h a of
      Some (Dict es) \<Rightarrow>
        if length (split_dot key) > 1 then
          (case merge n (h[a := Dict (del_prop key es)] @ chain (length h) (split_dot key) (get_prop es key))
                  a (length h) (path @ [hd (split_dot key)]) of
            Some (Inr h') \<Rightarrow>
              if isDict h' (get_prop es key) then
                (case n of
                  0 \<Rightarrow> None
                | Suc m \<Rightarrow>
                    (case explode_keys m (own_keys h' (the_addr (get_prop es key))) h'
                            (the_addr (get_prop es key)) (split_dot key) of
                      Some (Inr h'') \<Rightarrow> explode_keys n ks h'' a path
                    | r \<Rightarrow> r))
              else explode_keys n ks h' a path
          | r \<Rightarrow> r)
        else if isDict h (get_prop es key) then
          (case n of
            0 \<Rightarrow> None
          | Suc m \<Rightarrow>
              (case explode_keys m (own_keys h (the_addr (get_prop es key))) h
                      (the_addr (get_prop es key)) (path @ [key]) of
                Some (Inr h') \<Rightarrow> explode_keys n ks h' a path
              | r \<Rightarrow> r))
        else explode_keys n ks h a path
    | _ \<Rightarrow> Some (Inl IllTyped))"

definition explode :: "nat \<Rightarrow> store \<Rightarrow> addr \<Rightarrow> string list \<Rightarrow> (error + store) option" where
  "explode n h a path = explode_keys n (own_keys h a) h a path"

subsection \<open>Trees and the store\<close>

text \<open>A parsed JSON text is a tree. \<open>alloc\<close> builds it in the store from fresh objects
  (as \<^verbatim>\<open>JSON.parse\<close> does) and \<open>read_val\<close> reads the tree below a value back.\<close>

datatype json = JScalar scalar | JArr "json list" | JObj "(string \<times> json) list"

fun alloc :: "json \<Rightarrow> store \<Rightarrow> val \<times> store"
  and alloc_list :: "json list \<Rightarrow> store \<Rightarrow> val list \<times> store"
  and alloc_props :: "(string \<times> json) list \<Rightarrow> store \<Rightarrow> (string \<times> val) list \<times> store" where
  "alloc (JScalar s) h = (Scalar s, h)"
| "alloc (JArr ts) h = (case alloc_list ts h of (vs, h') \<Rightarrow> (Ref (length h'), h' @ [Arr vs]))"
| "alloc (JObj ps) h = (case alloc_props ps h of (es, h') \<Rightarrow> (Ref (length h'), h' @ [Dict es]))"
| "alloc_list [] h = ([], h)"
| "alloc_list (t # ts) h =
    (case alloc t h of (v, h1) \<Rightarrow> (case alloc_list ts h1 of (vs, h2) \<Rightarrow> (v # vs, h2)))"
| "alloc_props [] h = ([], h)"
| "alloc_props (p # ps) h =
    (case alloc (snd p) h of (v, h1) \<Rightarrow>
      (case alloc_props ps h1 of (es, h2) \<Rightarrow> ((fst p, v) # es, h2)))"

fun read_val :: "nat \<Rightarrow> store \<Rightarrow> val \<Rightarrow> json option" where
  "read_val n h (Scalar s) = Some (JScalar s)"
| "read_val 0 h (Ref a) = None"
| "read_val (Suc n) h (Ref a) =
    (case lookup h a of
      None \<Rightarrow> None
    | Some (Arr vs) \<Rightarrow> map_option JArr (those (map (read_val n h) vs))
    | Some (Dict es) \<Rightarrow>
        map_option JObj (those (map (\<lambda>e. map_option (Pair (fst e)) (read_val n h (snd e))) es)))"

text \<open>Two objects are the same configuration when they agree up to the order of their
  keys; \<open>canon\<close> sorts the keys of every dictionary.\<close>

fun canon :: "json \<Rightarrow> json" where
  "canon (JScalar s) = JScalar s"
| "canon (JArr ts) = JArr (map canon ts)"
| "canon (JObj ps) = JObj (sort_key fst (map (\<lambda>p. (fst p, canon (snd p))) ps))"

text \<open>\<^verbatim>\<open>explode\<close> applied to a freshly parsed tree, and applied a second time to the object
  it returned (\<^verbatim>\<open>explode\<close> returns \<open>o\<close> itself).\<close>

definition explode_parsed :: "nat \<Rightarrow> json \<Rightarrow> (error + json) option" where
  "explode_parsed n t =
     (case alloc t pristine of (v, h) \<Rightarrow>
       (case explode n h (the_addr v) [] of
         Some (Inr h1) \<Rightarrow> map_option Inr (read_val n h1 v)
       | Some (Inl e) \<Rightarrow> Some (Inl e)
       | None \<Rightarrow> None))"

definition explode_twice :: "nat \<Rightarrow> json \<Rightarrow> (error + json) option" where
  "explode_twice n t =
     (case alloc t pristine of (v, h) \<Rightarrow>
       (case explode n h (the_addr v) [] of
         Some (Inr h1) \<Rightarrow>
           (case explode n h1 (the_addr v) [] of
             Some (Inr h2) \<Rightarrow> map_option Inr (read_val n h2 v)
           | Some (Inl e) \<Rightarrow> Some (Inl e)
           | None \<Rightarrow> None)
       | Some (Inl e) \<Rightarrow> Some (Inl e)
       | None \<Rightarrow> None))"

subsection \<open>The configuration of a run\<close>

text \<open>
  The first statement of \<^verbatim>\<open>processFiles\<close>: every configuration source has been read and
  parsed (\<^verbatim>\<open>readPath\<close>, \<^verbatim>\<open>readFile\<close>; a source that is no dictionary ends the run), then
  the \<^verbatim>\<open>reduce\<close> explodes each parsed object and merges it into \<open>output\<close>, which starts as
  \<^verbatim>\<open>{}\<close>. A thrown error ends the run through \<^verbatim>\<open>die\<close>; \<open>Inl\<close> carries the reason printed.
\<close>

fun read_sources :: "(string \<times> json) list \<Rightarrow> store \<Rightarrow> string + ((string \<times> addr) list \<times> store)" where
  "read_sources [] h = Inr ([], h)"
| "read_sources (f # fs) h =
    (case snd f of
      JObj ps \<Rightarrow>
        (case alloc (JObj ps) h of (v, h1) \<Rightarrow>
          (case read_sources fs h1 of
            Inr (os, h2) \<Rightarrow> Inr ((fst f, the_addr v) # os, h2)
          | Inl r \<Rightarrow> Inl r))
    | _ \<Rightarrow> Inl (''file '' @ [CHR 0x27] @ fst f @ [CHR 0x27] @ '' did not resolve into an object''))"

fun message :: "error \<Rightarrow> string" where
  "message (Error m) = m"
| "message IllTyped = []"

definition failed_to_process :: "string \<Rightarrow> error \<Rightarrow> string" where
  "failed_to_process file e =
     ''failed to process file '' @ [CHR 0x27] @ file @ [CHR 0x27, CHR 0x0A] @ '' * '' @ message e"

fun apply_sources :: "nat \<Rightarrow> (string \<times> addr) list \<Rightarrow> store \<Rightarrow> addr \<Rightarrow> (string + store) option" where
  "apply_sources n [] h out = Some (Inr h)"
| "apply_sources n (f # fs) h out =
    (case explode n h (snd f) [] of
      Some (Inr h1) \<Rightarrow>
        (case merge n h1 out (snd f) [] of
          Some (Inr h2) \<Rightarrow> apply_sources n fs h2 out
        | Some (Inl e) \<Rightarrow> Some (Inl (failed_to_process (fst f) e))
        | None \<Rightarrow> None)
    | Some (Inl e) \<Rightarrow> Some (Inl (failed_to_process (fst f) e))
    | None \<Rightarrow> None)"

text \<open>The merged configuration of the sources, read back as a tree.\<close>

definition load_config :: "nat \<Rightarrow> (string \<times> json) list \<Rightarrow> (string + json) option" where
  "load_config n srcs =
     (case read_sources srcs pristine of
       Inl r \<Rightarrow> Some (Inl r)
     | Inr (os, h) \<Rightarrow>
         (case apply_sources n os (h @ [Dict []]) (length h) of
           Some (Inr h') \<Rightarrow> map_option Inr (read_val n h' (Ref (length h)))
         | Some (Inl r) \<Rightarrow> Some (Inl r)
         | None \<Rightarrow> None))"

subsection \<open>Trees held by a store, and \<^verbatim>\<open>merge\<close> on trees\<close>


text \<open>
  \<open>repr h v t = Some F\<close>: in the store \<open>h\<close> the value \<open>v\<close> holds the tree \<open>t\<close>, key by key and
  element by element in the same order; \<open>F\<close> lists the addresses of the objects
  that make it up, in the order of a walk from the root.
\<close>

fun repr :: "store \<Rightarrow> val \<Rightarrow> json \<Rightarrow> addr list option"
  and repr_list :: "store \<Rightarrow> val list \<Rightarrow> json list \<Rightarrow> addr list option"
  and repr_props :: "store \<Rightarrow> (string \<times> val) list \<Rightarrow> (string \<times> json) list \<Rightarrow> addr list option" where
  "repr h v (JScalar s) = (if v = Scalar s then Some [] else None)"
| "repr h v (JArr ts) =
    (case v of
      Ref a \<Rightarrow> (case lookup h a of Some (Arr vs) \<Rightarrow> map_option (Cons a) (repr_list h vs ts) | _ \<Rightarrow> None)
    | Scalar x \<Rightarrow> None)"
| "repr h v (JObj ps) =
    (case v of
      Ref a \<Rightarrow> (case lookup h a of Some (Dict es) \<Rightarrow> map_option (Cons a) (repr_props h es ps) | _ \<Rightarrow> None)
    | Scalar x \<Rightarrow> None)"
| "repr_list h vs [] = (if vs = [] then Some [] else None)"
| "repr_list h vs (t # ts) =
    (case vs of
      [] \<Rightarrow> None
    | v # vs' \<Rightarrow>
        (case repr h v t of
          None \<Rightarrow> None
        | Some F \<Rightarrow> map_option (append F) (repr_list h vs' ts)))"
| "repr_props h es [] = (if es = [] then Some [] else None)"
| "repr_props h es (p # ps) =
    (case es of
      [] \<Rightarrow> None
    | e # es' \<Rightarrow>
        if fst e = fst p then
          (case repr h (snd e) (snd p) of
            None \<Rightarrow> None
          | Some F \<Rightarrow> map_option (append F) (repr_props h es' ps))
        else None)"


text \<open>\<^verbatim>\<open>dest[key] = v\<close> for a key that \<open>dest\<close> has: the property keeps its place.\<close>

definition upd_prop :: "string \<Rightarrow> 'v \<Rightarrow> (string \<times> 'v) list \<Rightarrow> (string \<times> 'v) list" where
  "upd_prop k v es = map (\<lambda>e. if fst e = k then (k, v) else e) es"

text \<open>
  What the loop of \<^verbatim>\<open>merge(dest, src, path)\<close> does, read on trees: \<open>merge_tree dest src path\<close>
  visits the properties of \<open>src\<close> in order. A key that \<open>dest\<close> has not is added with the
  value of \<open>src\<close>; two dictionaries are merged with the key appended to the path; two
  arrays are concatenated; anything else throws the error naming \<^verbatim>\<open>[...path, key]\<close>.
  That the loop on the store computes this is the theorem \<open>merge_keys_refines\<close>.
\<close>

fun merge_tree :: "(string \<times> json) list \<Rightarrow> (string \<times> json) list \<Rightarrow> string list
    \<Rightarrow> error + (string \<times> json) list" where
  "merge_tree dest [] path = Inr dest"
| "merge_tree dest (p # src) path =
    (case map_of dest (fst p) of
      None \<Rightarrow> merge_tree (add_prop (fst p) (snd p) dest) src path
    | Some dv \<Rightarrow>
        (case snd p of
          JObj b \<Rightarrow>
            (case dv of
              JObj a \<Rightarrow>
                (case merge_tree a b (path @ [fst p]) of
                  Inl e \<Rightarrow> Inl e
                | Inr a' \<Rightarrow> merge_tree (upd_prop (fst p) (JObj a') dest) src path)
            | _ \<Rightarrow> Inl (conflict (path @ [fst p])))
        | JArr ys \<Rightarrow>
            (case dv of
              JArr xs \<Rightarrow> merge_tree (upd_prop (fst p) (JArr (xs @ ys)) dest) src path
            | _ \<Rightarrow> Inl (conflict (path @ [fst p])))
        | JScalar x \<Rightarrow> Inl (conflict (path @ [fst p]))))"




fun is_obj :: "json \<Rightarrow> bool" where
  "is_obj (JObj ps) = True"
| "is_obj t = False"

fun is_arr :: "json \<Rightarrow> bool" where
  "is_arr (JArr ts) = True"
| "is_arr t = False"

fun is_scalar :: "json \<Rightarrow> bool" where
  "is_scalar (JScalar x) = True"
| "is_scalar t = False"

text \<open>
  \<open>clash A B p\<close>: at the path \<open>p\<close>, reached through dictionaries on both sides, one of \<open>A\<close>
  and \<open>B\<close> binds the last key to a dictionary and the other binds it to a scalar.
  \<open>mismatch A B p\<close>: at the path \<open>p\<close>, reached in the same way, both bind the last key and
  the two values are neither two dictionaries nor two arrays.
\<close>

fun clash :: "(string \<times> json) list \<Rightarrow> (string \<times> json) list \<Rightarrow> string list \<Rightarrow> bool" where
  "clash A B [] = False"
| "clash A B [k] =
    (case (map_of A k, map_of B k) of
      (Some a, Some b) \<Rightarrow> (is_obj a \<and> is_scalar b) \<or> (is_scalar a \<and> is_obj b)
    | _ \<Rightarrow> False)"
| "clash A B (k # k' # p) =
    (case (map_of A k, map_of B k) of
      (Some (JObj a), Some (JObj b)) \<Rightarrow> clash a b (k' # p)
    | _ \<Rightarrow> False)"

fun mismatch :: "(string \<times> json) list \<Rightarrow> (string \<times> json) list \<Rightarrow> string list \<Rightarrow> bool" where
  "mismatch A B [] = False"
| "mismatch A B [k] =
    (case (map_of A k, map_of B k) of
      (Some a, Some b) \<Rightarrow> \<not> (is_obj a \<and> is_obj b) \<and> \<not> (is_arr a \<and> is_arr b)
    | _ \<Rightarrow> False)"
| "mismatch A B (k # k' # p) =
    (case (map_of A k, map_of B k) of
      (Some (JObj a), Some (JObj b)) \<Rightarrow> mismatch a b (k' # p)
    | _ \<Rightarrow> False)"

section \<open>Regular expressions and \<^verbatim>\<open>replace\<close>\<close>

text \<open>
  The template scanner and \<^verbatim>\<open>Clib.format\<close> are calls of \<^verbatim>\<open>String.prototype.replace\<close>
  with a global regular expression. The expressions are kept as terms and matched by
  a backtracking matcher that follows the ECMAScript rules for the constructs the
  source uses: the alternatives of \<^verbatim>\<open>|\<close> are tried in order, \<^verbatim>\<open>?\<close>, \<^verbatim>\<open>*\<close> and \<^verbatim>\<open>+\<close> take as
  much as they can and give back on failure, \<^verbatim>\<open>+?\<close> takes as little as it can, an
  iteration that consumes nothing is refused, and a group that takes no part in the
  match has no value. Characters are the code units below 256.
\<close>

abbreviation TAB :: char where "TAB \<equiv> CHR 0x09"
abbreviation LF :: char where "LF \<equiv> CHR 0x0A"
abbreviation CR :: char where "CR \<equiv> CHR 0x0D"
abbreviation DQ :: char where "DQ \<equiv> CHR 0x22"
abbreviation SQ :: char where "SQ \<equiv> CHR 0x27"
abbreviation BS :: char where "BS \<equiv> CHR 0x5C"

datatype rx =
    Eps
  | Lit char
  | OneOf "char list"
  | NoneOf "char list"
  | Seq rx rx
  | Alt rx rx
  | Opt rx
  | Star rx
  | Plus rx
  | LazyPlus rx
  | Group nat rx

type_synonym caps = "nat \<Rightarrow> string option"

definition orelse :: "'r option \<Rightarrow> 'r option \<Rightarrow> 'r option" where
  "orelse x y = (case x of Some r \<Rightarrow> Some r | None \<Rightarrow> y)"

text \<open>The matcher is written with a continuation \<open>k\<close> for the rest of the expression:
  \<open>rx_run r s c k\<close> matches \<open>r\<close> at the front of \<open>s\<close> with the captures \<open>c\<close> so far and
  hands what is left to \<open>k\<close>; \<open>None\<close> makes the caller try its next choice. The
  iterations are bounded by the length of the text, each one consuming a character.\<close>

primrec greedy :: "nat \<Rightarrow> (string \<Rightarrow> caps \<Rightarrow> (string \<Rightarrow> caps \<Rightarrow> 'r option) \<Rightarrow> 'r option)
    \<Rightarrow> string \<Rightarrow> caps \<Rightarrow> (string \<Rightarrow> caps \<Rightarrow> 'r option) \<Rightarrow> 'r option" where
  "greedy 0 f s c k = k s c"
| "greedy (Suc n) f s c k =
    orelse (f s c (\<lambda>s' c'. if length s' < length s then greedy n f s' c' k else None)) (k s c)"

primrec lazy :: "nat \<Rightarrow> (string \<Rightarrow> caps \<Rightarrow> (string \<Rightarrow> caps \<Rightarrow> 'r option) \<Rightarrow> 'r option)
    \<Rightarrow> string \<Rightarrow> caps \<Rightarrow> (string \<Rightarrow> caps \<Rightarrow> 'r option) \<Rightarrow> 'r option" where
  "lazy 0 f s c k = k s c"
| "lazy (Suc n) f s c k =
    orelse (k s c) (f s c (\<lambda>s' c'. if length s' < length s then lazy n f s' c' k else None))"

primrec rx_run :: "rx \<Rightarrow> string \<Rightarrow> caps \<Rightarrow> (string \<Rightarrow> caps \<Rightarrow> 'r option) \<Rightarrow> 'r option" where
  "rx_run Eps s c k = k s c"
| "rx_run (Lit x) s c k = (case s of [] \<Rightarrow> None | y # ys \<Rightarrow> if y = x then k ys c else None)"
| "rx_run (OneOf xs) s c k = (case s of [] \<Rightarrow> None | y # ys \<Rightarrow> if y \<in> set xs then k ys c else None)"
| "rx_run (NoneOf xs) s c k = (case s of [] \<Rightarrow> None | y # ys \<Rightarrow> if y \<in> set xs then None else k ys c)"
| "rx_run (Seq a b) s c k = rx_run a s c (\<lambda>s' c'. rx_run b s' c' k)"
| "rx_run (Alt a b) s c k = orelse (rx_run a s c k) (rx_run b s c k)"
| "rx_run (Opt a) s c k = orelse (rx_run a s c k) (k s c)"
| "rx_run (Star a) s c k = greedy (length s) (rx_run a) s c k"
| "rx_run (Plus a) s c k = rx_run a s c (\<lambda>s' c'. greedy (length s') (rx_run a) s' c' k)"
| "rx_run (LazyPlus a) s c k = rx_run a s c (\<lambda>s' c'. lazy (length s') (rx_run a) s' c' k)"
| "rx_run (Group i a) s c k =
    rx_run a s c (\<lambda>s' c'. k s' (c'(i \<mapsto> take (length s - length s') s)))"

text \<open>A match at the front of \<open>s\<close>: what is left of \<open>s\<close>, and the groups.\<close>

definition rx_match :: "rx \<Rightarrow> string \<Rightarrow> (string \<times> caps) option" where
  "rx_match r s = rx_run r s (\<lambda>i. None) (\<lambda>s' c. Some (s', c))"

text \<open>
  \<^verbatim>\<open>replace\<close> with a global expression first finds the matches from left to right, each
  search starting where the match before it ended (one character further after an
  empty match), and then calls the replacer once per match, in order. \<open>scan\<close> cuts the
  text into the characters kept and the matches; \<open>fill\<close> calls the replacer \<open>f\<close>, which
  may keep a state and may throw.
\<close>

datatype piece = Keep char | Hit string caps

function scan :: "rx \<Rightarrow> string \<Rightarrow> piece list" where
  "scan r s =
    (case rx_match r s of
      None \<Rightarrow> (case s of [] \<Rightarrow> [] | x # xs \<Rightarrow> Keep x # scan r xs)
    | Some (rest, c) \<Rightarrow>
        if length rest < length s then Hit (take (length s - length rest) s) c # scan r rest
        else (case s of [] \<Rightarrow> [Hit [] c] | x # xs \<Rightarrow> Hit [] c # Keep x # scan r xs))"
  by pat_completeness auto
termination
  by (relation "measure (\<lambda>(r, s). length s)") auto

declare scan.simps [simp del]

fun fill :: "('s \<Rightarrow> string \<Rightarrow> caps \<Rightarrow> error + string \<times> 's) \<Rightarrow> 's \<Rightarrow> piece list
    \<Rightarrow> error + string \<times> 's" where
  "fill f st [] = Inr ([], st)"
| "fill f st (Keep x # ps) =
    (case fill f st ps of Inl e \<Rightarrow> Inl e | Inr (out, st') \<Rightarrow> Inr (x # out, st'))"
| "fill f st (Hit m c # ps) =
    (case f st m c of
      Inl e \<Rightarrow> Inl e
    | Inr (t, st') \<Rightarrow>
        (case fill f st' ps of Inl e \<Rightarrow> Inl e | Inr (out, st'') \<Rightarrow> Inr (t @ out, st'')))"

definition replace :: "rx \<Rightarrow> ('s \<Rightarrow> string \<Rightarrow> caps \<Rightarrow> error + string \<times> 's) \<Rightarrow> 's \<Rightarrow> string
    \<Rightarrow> error + string \<times> 's" where
  "replace r f st s = fill f st (scan r s)"

fun lits :: "string \<Rightarrow> rx" where
  "lits [] = Eps"
| "lits [x] = Lit x"
| "lits (x # y # ys) = Seq (Lit x) (lits (y # ys))"

text \<open>A group as the replacer sees it: \<open>truthy\<close> is the test \<^verbatim>\<open>if (g)\<close> (a group that took
  no part is \<^verbatim>\<open>undefined\<close>, an empty one is \<^verbatim>\<open>""\<close>), \<open>group_text\<close> its text.\<close>

definition truthy :: "string option \<Rightarrow> bool" where
  "truthy g = (case g of None \<Rightarrow> False | Some x \<Rightarrow> x \<noteq> [])"

definition group_text :: "string option \<Rightarrow> string" where
  "group_text g = (case g of None \<Rightarrow> [] | Some x \<Rightarrow> x)"

text \<open>
  What an expression denotes, for the proofs: \<open>sem r m c c'\<close> says that the text \<open>m\<close> is
  matched by \<open>r\<close> and that the groups \<open>c\<close> become \<open>c'\<close> on the way. The matcher finds only
  such matches (\<open>rx_run_sound\<close>).
\<close>

inductive sem :: "rx \<Rightarrow> string \<Rightarrow> caps \<Rightarrow> caps \<Rightarrow> bool" where
  sem_Eps: "sem Eps [] c c"
| sem_Lit: "sem (Lit x) [x] c c"
| sem_OneOf: "y \<in> set xs \<Longrightarrow> sem (OneOf xs) [y] c c"
| sem_NoneOf: "y \<notin> set xs \<Longrightarrow> sem (NoneOf xs) [y] c c"
| sem_Seq: "sem a m1 c c1 \<Longrightarrow> sem b m2 c1 c2 \<Longrightarrow> sem (Seq a b) (m1 @ m2) c c2"
| sem_AltL: "sem a m c c' \<Longrightarrow> sem (Alt a b) m c c'"
| sem_AltR: "sem b m c c' \<Longrightarrow> sem (Alt a b) m c c'"
| sem_OptS: "sem a m c c' \<Longrightarrow> sem (Opt a) m c c'"
| sem_OptN: "sem (Opt a) [] c c"
| sem_StarN: "sem (Star a) [] c c"
| sem_StarS: "sem a m1 c c1 \<Longrightarrow> sem (Star a) m2 c1 c2 \<Longrightarrow> sem (Star a) (m1 @ m2) c c2"
| sem_Plus: "sem a m1 c c1 \<Longrightarrow> sem (Star a) m2 c1 c2 \<Longrightarrow> sem (Plus a) (m1 @ m2) c c2"
| sem_LazyPlus: "sem a m1 c c1 \<Longrightarrow> sem (Star a) m2 c1 c2 \<Longrightarrow> sem (LazyPlus a) (m1 @ m2) c c2"
| sem_Group: "sem a m c c' \<Longrightarrow> sem (Group i a) m c (c'(i \<mapsto> m))"



section \<open>\<^verbatim>\<open>Clib.format\<close>\<close>

text \<open>The white space of \<^verbatim>\<open>\s\<close> and of \<^verbatim>\<open>trimRight\<close>, among the code units below 256.\<close>

definition space_class :: "char list" where
  "space_class = [TAB, LF, CHR 0x0B, CHR 0x0C, CR, CHR 0x20, CHR 0xA0]"

definition js_space :: "char \<Rightarrow> bool" where
  "js_space x = (x \<in> set space_class)"

definition trimRight :: "string \<Rightarrow> string" where
  "trimRight s = rev (dropWhile js_space (rev s))"

fun show_nat :: "nat \<Rightarrow> string" where
  "show_nat n =
    (if n < 10 then [char_of (48 + n)] else show_nat (n div 10) @ [char_of (48 + n mod 10)])"

definition show_int :: "int \<Rightarrow> string" where
  "show_int i = (if i < 0 then CHR ''-'' # show_nat (nat (- i)) else show_nat (nat i))"

text \<open>\<^verbatim>\<open>"(?:\\"|[^"])+"|'\\''|'[^']'\<close>: the literals that both expressions of \<^verbatim>\<open>format\<close>
  copy.\<close>

definition string_rx :: rx where
  "string_rx =
     Alt (Seq (Lit DQ) (Seq (Plus (Alt (Seq (Lit BS) (Lit DQ)) (NoneOf [DQ]))) (Lit DQ)))
       (Alt (Seq (Lit SQ) (Seq (Lit BS) (Seq (Lit SQ) (Lit SQ))))
            (Seq (Lit SQ) (Seq (NoneOf [SQ]) (Lit SQ))))"

text \<open>\<^verbatim>\<open>/("(?:\\"|[^"])+"|'\\''|'[^']')|([\t\n\r]+)/g\<close> and its replacer
  \<^verbatim>\<open>(_, string, _ws) => string ? string : ""\<close>.\<close>

definition strip_rx :: rx where
  "strip_rx = Alt (Group 1 string_rx) (Group 2 (Plus (OneOf [TAB, LF, CR])))"

definition strip_cb :: "unit \<Rightarrow> string \<Rightarrow> caps \<Rightarrow> error + string \<times> unit" where
  "strip_cb u m c = Inr (if truthy (c 1) then group_text (c 1) else [], u)"

text \<open>\<^verbatim>\<open>/(=\s*\{)|(\{)|([,;}])|("(?:\\"|[^"])+"|'\\''|'[^']')/g\<close> and its replacer, whose
  state is the pair of \<^verbatim>\<open>indent\<close> and \<^verbatim>\<open>mode\<close>. A replacer that returns nothing inserts
  \<^verbatim>\<open>undefined\<close>.\<close>

definition symbol_rx :: rx where
  "symbol_rx =
     Alt (Group 1 (Seq (Lit CHR ''='') (Seq (Star (OneOf space_class)) (Lit CHR ''{''))))
       (Alt (Group 2 (Lit CHR ''{''))
         (Alt (Group 3 (OneOf '',;}'')) (Group 4 string_rx)))"

definition symbol_cb :: "string \<times> int \<Rightarrow> string \<Rightarrow> caps \<Rightarrow> error + string \<times> (string \<times> int)" where
  "symbol_cb st m c =
     (case st of (indent, mode) \<Rightarrow>
       if truthy (c 4) then Inr (group_text (c 4), (indent, mode))
       else if truthy (c 1) then
         Inr (''= {'' @ [LF] @ (indent @ [TAB]), (indent @ [TAB], mode + 1))
       else if truthy (c 2) then
         Inr (''{'' @ [LF] @ (indent @ [TAB]), (indent @ [TAB], if mode > 0 then mode + 1 else 0))
       else if c 3 = Some ''}'' then
         Inr ([LF] @ drop 1 indent @ ''}'', (drop 1 indent, if mode > 0 then mode - 1 else 0))
       else if c 3 = Some '';'' then Inr ('';'' @ [LF] @ indent, (indent, mode))
       else if c 3 = Some '','' then
         Inr (if mode > 0 then '','' @ [LF] @ indent else '','', (indent, mode))
       else Inr (''undefined'', (indent, mode)))"

text \<open>\<^verbatim>\<open>/\n(\t*)[ ]+|\n[\t ]+\n/g\<close> with the replacement \<^verbatim>\<open>"\n$1"\<close>.\<close>

definition blank_rx :: rx where
  "blank_rx =
     Alt (Seq (Lit LF) (Seq (Group 1 (Star (Lit TAB))) (Plus (Lit CHR '' ''))))
         (Seq (Lit LF) (Seq (Plus (OneOf [TAB, CHR '' ''])) (Lit LF)))"

definition blank_cb :: "unit \<Rightarrow> string \<Rightarrow> caps \<Rightarrow> error + string \<times> unit" where
  "blank_cb u m c = Inr (LF # group_text (c 1), u)"

text \<open>\<^verbatim>\<open>format(code, initialIndent)\<close>; \<^verbatim>\<open>"\t".repeat\<close> throws on a negative count.\<close>

definition format :: "string \<Rightarrow> int option \<Rightarrow> error + string" where
  "format code initialIndent =
     (case (case initialIndent of None \<Rightarrow> 0 | Some i \<Rightarrow> i) of n \<Rightarrow>
       if n < 0 then Inl (Error (''Invalid count value: '' @ show_int n))
       else
         (case replace strip_rx strip_cb () code of
           Inl e \<Rightarrow> Inl e
         | Inr (t1, u) \<Rightarrow>
            (case replace symbol_rx symbol_cb (replicate (nat n) TAB, 0) t1 of
              Inl e \<Rightarrow> Inl e
            | Inr (t2, st) \<Rightarrow>
               (case replace blank_rx blank_cb () t2 of
                 Inl e \<Rightarrow> Inl e
               | Inr (t3, u') \<Rightarrow> Inr (trimRight t3)))))"

text \<open>The scan of the second expression from the start of \<^verbatim>\<open>format\<close>: the replacer's
  output and state after the pieces \<open>ps\<close>.\<close>

definition symbol_scan :: "nat \<Rightarrow> piece list \<Rightarrow> error + string \<times> (string \<times> int)" where
  "symbol_scan n ps = fill symbol_cb (replicate n TAB, 0) ps"

text \<open>What the replacer does with the match at the front of \<open>s\<close>.\<close>

definition symbol_at :: "string \<times> int \<Rightarrow> string \<Rightarrow> (error + string \<times> (string \<times> int)) option" where
  "symbol_at st s =
     (case rx_match symbol_rx s of
       None \<Rightarrow> None
     | Some (rest, c) \<Rightarrow> Some (symbol_cb st (take (length s - length rest) s) c))"











section \<open>Template files\<close>

text \<open>
  The script evaluator (\<^verbatim>\<open>vm.runInContext\<close>) is not part of the repository: it is a
  parameter \<open>run\<close>, which takes the context and the code of a block and either throws or
  returns the value of the code with the context as the code left it. The context \<open>'c\<close>
  stands for everything the code can reach: the bindings of the sandbox and the
  objects behind them, the configuration among them.
\<close>

datatype jsval = Undef | Null | Boolean bool | Number int | Str string | Other string

text \<open>\<^verbatim>\<open>ToString\<close>, which \<^verbatim>\<open>replace\<close> applies to what the replacer returns; \<open>Other s\<close> is
  an object with the string form \<open>s\<close>.\<close>

fun to_string :: "jsval \<Rightarrow> string" where
  "to_string Undef = ''undefined''"
| "to_string Null = ''null''"
| "to_string (Boolean b) = (if b then ''true'' else ''false'')"
| "to_string (Number i) = show_int i"
| "to_string (Str s) = s"
| "to_string (Other s) = s"

text \<open>\<^verbatim>\<open>/(?:\r?\n?<\?\?|<\?)(.+?)(?:\?\?>\r?\n?|\?>)/gs\<close>\<close>

definition open_rx :: rx where
  "open_rx = Alt (Seq (Opt (Lit CR)) (Seq (Opt (Lit LF)) (lits ''<??''))) (lits ''<?'')"

definition close_rx :: rx where
  "close_rx = Alt (Seq (lits ''??>'') (Seq (Opt (Lit CR)) (Opt (Lit LF)))) (lits ''?>'')"

definition block_rx :: rx where
  "block_rx = Seq open_rx (Seq (Group 1 (LazyPlus (NoneOf []))) close_rx)"

text \<open>The ways \<open>open_rx\<close> and \<open>close_rx\<close> can match are literal prefixes of the text:
  \<open>try_prefix w s c k\<close> continues behind \<open>w\<close> when \<open>s\<close> starts with it.\<close>

definition try_prefix :: "string \<Rightarrow> string \<Rightarrow> caps \<Rightarrow> (string \<Rightarrow> caps \<Rightarrow> 'r option) \<Rightarrow> 'r option" where
  "try_prefix w s c k = (if prefix w s then k (drop (length w) s) c else None)"

text \<open>
  The markers of a block, long (\<open>True\<close>) or short, and what makes \<open>code\<close> the code of a
  block between them: it is not empty, no closing marker begins inside it, it does not
  start with \<^verbatim>\<open>?\<close> after a short opening marker (which would then read as the long
  one) and does not end with \<^verbatim>\<open>?\<close> before a short closing marker. \<open>plain_before\<close> is
  the text before the block: it holds no opening marker, and before a long opening
  marker it does not end in a carriage return (which the marker would take as well).
\<close>

definition opener :: "bool \<Rightarrow> string" where
  "opener lo = (if lo then ''<??'' else ''<?'')"

definition closer :: "bool \<Rightarrow> string" where
  "closer lc = (if lc then ''??>'' else ''?>'')"

definition block_code :: "bool \<Rightarrow> bool \<Rightarrow> string \<Rightarrow> bool" where
  "block_code lo lc code =
     (code \<noteq> [] \<and> \<not> sublist ''?>'' code
      \<and> (lo \<or> hd code \<noteq> CHR ''?'') \<and> (lc \<or> last code \<noteq> CHR ''?''))"

definition plain_before :: "bool \<Rightarrow> string \<Rightarrow> bool" where
  "plain_before lo X = (\<not> sublist ''<?'' X \<and> (lo \<longrightarrow> X = [] \<or> last X \<noteq> CR))"

text \<open>\<^verbatim>\<open>output === undefined ? "" : output\<close>, as text.\<close>

definition replacement :: "jsval \<Rightarrow> string" where
  "replacement output = to_string (if output = Undef then Str [] else output)"

definition block_cb :: "('c \<Rightarrow> string \<Rightarrow> error + jsval \<times> 'c) \<Rightarrow> 'c \<Rightarrow> string \<Rightarrow> caps
    \<Rightarrow> error + string \<times> 'c" where
  "block_cb run ctx m c =
     (case run ctx (group_text (c 1)) of
       Inl e \<Rightarrow> Inl e
     | Inr (output, ctx') \<Rightarrow> Inr (replacement output, ctx'))"

text \<open>The \<^verbatim>\<open>replace\<close> of line 171: the text of one file, with its blocks evaluated from
  left to right in the context \<open>ctx\<close>.\<close>

definition render :: "('c \<Rightarrow> string \<Rightarrow> error + jsval \<times> 'c) \<Rightarrow> 'c \<Rightarrow> string \<Rightarrow> error + string \<times> 'c" where
  "render run ctx s = replace block_rx (block_cb run) ctx s"

text \<open>
  \<^verbatim>\<open>vm.createContext(sandbox)\<close> is Node.js: it prepares the object it is given as the
  global object of a context and returns that same object; given an object that is a
  context already, it returns it as it is. \<^verbatim>\<open>sandbox\<close> is built once, before the loop
  over the files, and holds \<^verbatim>\<open>config\<close> by reference.
\<close>

definition createContext :: "'c \<Rightarrow> 'c" where
  "createContext sandbox = sandbox"

text \<open>\<^verbatim>\<open>file.match(/^(.+)[.]template$/)\<close>, its first group.\<close>

definition template_target :: "string \<Rightarrow> string option" where
  "template_target file =
     rx_run (Seq (Group 1 (Plus (NoneOf [LF, CR]))) (lits ''.template'')) file (\<lambda>i. None)
       (\<lambda>s' c. if s' = [] then c 1 else None)"

text \<open>
  The loop of \<^verbatim>\<open>processFiles\<close> over the input files. \<open>out\<close> is \<^verbatim>\<open>options.output\<close> (empty
  when the option is not given), \<open>disk\<close> maps the paths that exist to their contents,
  \<open>preamble ctx\<close> is \<^verbatim>\<open>config.ctemplate.preamble\<close> as text (empty when it is not set). The
  result is the reason of \<^verbatim>\<open>die\<close>, or the disk and the sandbox after the last file.
\<close>

fun templates :: "('c \<Rightarrow> string \<Rightarrow> error + jsval \<times> 'c) \<Rightarrow> ('c \<Rightarrow> string) \<Rightarrow> string
    \<Rightarrow> string list \<Rightarrow> (string \<Rightarrow> string option) \<Rightarrow> 'c \<Rightarrow> string + (string \<Rightarrow> string option) \<times> 'c" where
  "templates run preamble out [] disk sandbox = Inr (disk, sandbox)"
| "templates run preamble out (file # files) disk sandbox =
    (case (if out \<noteq> [] then Some out else template_target file) of
      None \<Rightarrow> Inl (''for input files not ending with '' @ [SQ] @ ''.template'' @ [SQ]
                  @ '' --output option must be provided'')
    | Some target \<Rightarrow>
        (case disk file of
          None \<Rightarrow> Inl (''input file '' @ [SQ] @ file @ [SQ] @ '' does not exist'')
        | Some s \<Rightarrow>
            (case render run (createContext sandbox) s of
              Inl e \<Rightarrow> Inl (message e)
            | Inr (result, ctx) \<Rightarrow>
                templates run preamble out files (disk(target \<mapsto> preamble ctx @ result)) ctx)))"

definition process_templates :: "('c \<Rightarrow> string \<Rightarrow> error + jsval \<times> 'c) \<Rightarrow> ('c \<Rightarrow> string) \<Rightarrow> string
    \<Rightarrow> string list \<Rightarrow> (string \<Rightarrow> string option) \<Rightarrow> 'c \<Rightarrow> string + (string \<Rightarrow> string option) \<times> 'c" where
  "process_templates run preamble out files disk sandbox =
     (if out \<noteq> [] \<and> length files \<noteq> 1
      then Inl ''output option is meaningful only when one input file is given''
      else templates run preamble out files disk sandbox)"

text \<open>
  A small evaluator to run the loop with: \<^verbatim>\<open>name=text\<close> binds a global name and has no
  value, any other code is a name and evaluates to what is bound to it, and throws
  when nothing is.
\<close>

definition toy_run :: "(string \<times> jsval) list \<Rightarrow> string \<Rightarrow> error + jsval \<times> (string \<times> jsval) list" where
  "toy_run ctx code =
     (if CHR ''='' \<in> set code
      then Inr (Undef, (takeWhile (\<lambda>x. x \<noteq> CHR ''='') code,
                        Str (drop 1 (dropWhile (\<lambda>x. x \<noteq> CHR ''='') code))) # ctx)
      else (case map_of ctx code of
             Some v \<Rightarrow> Inr (v, ctx)
           | None \<Rightarrow> Inl (Error (code @ '' is not defined''))))"

section \<open>Theorems\<close>

subsection \<open>\<^verbatim>\<open>merge\<close>: stores\<close>



subsection \<open>\<^verbatim>\<open>merge\<close>: trees in a store\<close>








lemma repr_props_cons:
  "repr_props h ((k, v) # es) ((k, t) # ps) =
     (case repr h v t of None \<Rightarrow> None | Some F \<Rightarrow> map_option (append F) (repr_props h es ps))"
  by simp






subsection \<open>\<^verbatim>\<open>merge\<close>: adding and replacing a property\<close>

lemma before_index_fst: "before_index k e = (is_index (fst e) \<and> index_val (fst e) < index_val k)"
  by (simp add: before_index_def)

lemma takeWhile_before_length:
  fixes es :: "(string \<times> 'a) list" and ps :: "(string \<times> 'b) list"
  assumes "map fst es = map fst ps"
  shows "length (takeWhile (before_index k) es) = length (takeWhile (before_index k) ps)"
proof -
  let ?Q = "\<lambda>x. is_index x \<and> index_val x < index_val k"
  have a: "map fst (takeWhile (before_index k) es) = takeWhile ?Q (map fst es)"
    by (simp add: takeWhile_map comp_def before_index_def[abs_def])
  have b: "map fst (takeWhile (before_index k) ps) = takeWhile ?Q (map fst ps)"
    by (simp add: takeWhile_map comp_def before_index_def[abs_def])
  from a b assms show ?thesis by (metis length_map)
qed

lemma add_prop_split:
  fixes es :: "(string \<times> 'a) list" and ps :: "(string \<times> 'b) list"
  assumes "map fst es = map fst ps"
  shows "\<exists>i. add_prop k v es = take i es @ (k, v) # drop i es
           \<and> add_prop k t ps = take i ps @ (k, t) # drop i ps"
proof (cases "is_index k")
  case True
  let ?i = "length (takeWhile (before_index k) es)"
  have "takeWhile (before_index k) es = take ?i es" "dropWhile (before_index k) es = drop ?i es"
    by (rule takeWhile_eq_take, rule dropWhile_eq_drop)
  moreover have "takeWhile (before_index k) ps = take ?i ps" "dropWhile (before_index k) ps = drop ?i ps"
    unfolding takeWhile_before_length[OF assms, of k]
    by (rule takeWhile_eq_take, rule dropWhile_eq_drop)
  ultimately have "add_prop k v es = take ?i es @ (k, v) # drop ?i es
           \<and> add_prop k t ps = take ?i ps @ (k, t) # drop ?i ps"
    using True by (simp add: add_prop_def)
  then show ?thesis by blast
next
  case False
  have "length es = length ps" using assms by (metis length_map)
  then have "add_prop k v es = take (length es) es @ (k, v) # drop (length es) es
           \<and> add_prop k t ps = take (length es) ps @ (k, t) # drop (length es) ps"
    using False by (simp add: add_prop_def)
  then show ?thesis by blast
qed

lemma set_add_prop: "set (add_prop k v es) = insert (k, v) (set es)"
proof -
  have "set (takeWhile (before_index k) es) \<union> set (dropWhile (before_index k) es) = set es"
    by (metis set_append takeWhile_dropWhile_id)
  then show ?thesis by (auto simp: add_prop_def)
qed

lemma keys_add_prop: "fst ` set (add_prop k v es) = insert k (fst ` set es)"
  by (simp add: set_add_prop)


lemma map_of_add_prop:
  assumes "k \<notin> fst ` set es"
  shows "map_of (add_prop k v es) k' = (if k' = k then Some v else map_of es k')"
proof -
  obtain i where i: "add_prop k v es = take i es @ (k, v) # drop i es"
    using add_prop_split[of es es k v v] by blast
  have nk: "map_of (take i es) k = None"
    using assms by (auto simp: map_of_eq_None_iff dest: in_set_takeD)
  have "map_of es k' = map_of (take i es @ drop i es) k'" by simp
  also have "\<dots> = (case map_of (take i es) k' of None \<Rightarrow> map_of (drop i es) k' | Some x \<Rightarrow> Some x)"
    by (simp only: map_of_append map_add_def)
  finally have e: "map_of es k' = (case map_of (take i es) k' of None \<Rightarrow> map_of (drop i es) k' | Some x \<Rightarrow> Some x)" .
  have "map_of (add_prop k v es) k' =
      (case map_of (take i es) k' of None \<Rightarrow> map_of ((k, v) # drop i es) k' | Some x \<Rightarrow> Some x)"
    unfolding i by (simp only: map_of_append map_add_def)
  then show ?thesis using e nk by (auto split: option.splits)
qed



lemma keys_upd_prop: "map fst (upd_prop k v es) = map fst es"
  by (induction es) (auto simp: upd_prop_def)

lemma map_of_upd_prop:
  "map_of (upd_prop k v es) k' = (if k' = k then map_option (\<lambda>x. v) (map_of es k) else map_of es k')"
  by (induction es) (auto simp: upd_prop_def)





subsection \<open>\<^verbatim>\<open>merge\<close>: one step of the loop\<close>

lemma step_absent:
  assumes "lookup h d = Some (Dict de)" "lookup h s = Some (Dict se)" "\<not> has_key h d k"
  shows "merge_keys n (k # ks) h d s path
           = merge_keys n ks (h[d := Dict (add_prop k (get_val h s k) de)]) d s path"
  using assms by (simp add: merge_keys.simps)

lemma step_dict:
  assumes "lookup h d = Some (Dict de)" "lookup h s = Some (Dict se)" "has_key h d k"
    "isDict h (get_val h d k)" "isDict h (get_val h s k)"
  shows "merge_keys (Suc m) (k # ks) h d s path
           = (case merge_keys m (forin_keys h (the_addr (get_val h s k))) h
                     (the_addr (get_val h d k)) (the_addr (get_val h s k)) (path @ [k]) of
               Some (Inr h') \<Rightarrow> merge_keys (Suc m) ks h' d s path
             | r \<Rightarrow> r)"
  using assms by (simp add: merge_keys.simps)

lemma step_dict0:
  assumes "lookup h d = Some (Dict de)" "lookup h s = Some (Dict se)" "has_key h d k"
    "isDict h (get_val h d k)" "isDict h (get_val h s k)"
  shows "merge_keys 0 (k # ks) h d s path = None"
  using assms by (simp add: merge_keys.simps)

lemma step_array:
  assumes "lookup h d = Some (Dict de)" "lookup h s = Some (Dict se)" "has_key h d k"
    "\<not> (isDict h (get_val h d k) \<and> isDict h (get_val h s k))"
    "isArray h (get_val h d k)" "isArray h (get_val h s k)"
  shows "merge_keys n (k # ks) h d s path
           = merge_keys n ks
               (push h (the_addr (get_val h d k)) (elems h (the_addr (get_val h s k)))) d s path"
  using assms by (auto simp: merge_keys.simps)

lemma step_conflict:
  assumes "lookup h d = Some (Dict de)" "lookup h s = Some (Dict se)" "has_key h d k"
    "\<not> (isDict h (get_val h d k) \<and> isDict h (get_val h s k))"
    "\<not> (isArray h (get_val h d k) \<and> isArray h (get_val h s k))"
  shows "merge_keys n (k # ks) h d s path = Some (Inl (conflict (path @ [k])))"
  using assms by (auto simp: merge_keys.simps)

lemma step_illtyped:
  assumes "\<not> (\<exists>de se. lookup h d = Some (Dict de) \<and> lookup h s = Some (Dict se))"
  shows "merge_keys n (k # ks) h d s path = Some (Inl IllTyped)"
  using assms by (auto simp: merge_keys.simps split: option.splits obj.splits)














subsection \<open>\<^verbatim>\<open>merge\<close>: the loop on the store computes the merge of the trees\<close>



subsection \<open>\<^verbatim>\<open>merge\<close>: more depth does not change a result\<close>

lemma merge_keys_mono_all:
  "\<forall>ks h d s path r n'. merge_keys n ks h d s path = Some r \<longrightarrow> n \<le> n'
      \<longrightarrow> merge_keys n' ks h d s path = Some r"
proof (induction n)
  case 0
  show ?case
  proof (intro allI)
    fix ks h d s path r n'
    show "merge_keys 0 ks h d s path = Some r \<longrightarrow> 0 \<le> n' \<longrightarrow> merge_keys n' ks h d s path = Some r"
    proof (induction ks arbitrary: h)
      case Nil
      then show ?case by (simp add: merge_keys.simps)
    next
      case (Cons k ks)
      show ?case
      proof (cases "\<exists>de se. lookup h d = Some (Dict de) \<and> lookup h s = Some (Dict se)")
        case False
        then show ?thesis by (simp add: step_illtyped)
      next
        case True
        then obtain de se where ds: "lookup h d = Some (Dict de)" "lookup h s = Some (Dict se)" by blast
        show ?thesis
        proof (cases "has_key h d k")
          case False
          show ?thesis using Cons by (simp add: step_absent[OF ds False])
        next
          case Some: True
          show ?thesis
          proof (cases "isDict h (get_val h d k) \<and> isDict h (get_val h s k)")
            case True
            then show ?thesis using step_dict0[OF ds Some] by simp
          next
            case nd: False
            show ?thesis
            proof (cases "isArray h (get_val h d k) \<and> isArray h (get_val h s k)")
              case True
              then show ?thesis using Cons nd by (simp add: step_array[OF ds Some])
            next
              case False
              then show ?thesis using nd by (simp add: step_conflict[OF ds Some])
            qed
          qed
        qed
      qed
    qed
  qed
next
  case (Suc m)
  show ?case
  proof (intro allI)
    fix ks h d s path r n'
    show "merge_keys (Suc m) ks h d s path = Some r \<longrightarrow> Suc m \<le> n' \<longrightarrow> merge_keys n' ks h d s path = Some r"
    proof (induction ks arbitrary: h)
      case Nil
      then show ?case by (simp add: merge_keys.simps)
    next
      case (Cons k ks)
      show ?case
      proof (cases "\<exists>de se. lookup h d = Some (Dict de) \<and> lookup h s = Some (Dict se)")
        case False
        then show ?thesis by (simp add: step_illtyped)
      next
        case True
        then obtain de se where ds: "lookup h d = Some (Dict de)" "lookup h s = Some (Dict se)" by blast
        show ?thesis
        proof (cases "has_key h d k")
          case False
          show ?thesis using Cons by (simp add: step_absent[OF ds False])
        next
          case Some: True
          show ?thesis
          proof (cases "isDict h (get_val h d k) \<and> isDict h (get_val h s k)")
            case True
            show ?thesis
            proof (intro impI)
              assume r: "merge_keys (Suc m) (k # ks) h d s path = Some r" and le: "Suc m \<le> n'"
              then obtain m' where n': "n' = Suc m'" "m \<le> m'" by (cases n') auto
              let ?inner = "\<lambda>j. merge_keys j (forin_keys h (the_addr (get_val h s k))) h
                     (the_addr (get_val h d k)) (the_addr (get_val h s k)) (path @ [k])"
              have e: "\<And>j. merge_keys (Suc j) (k # ks) h d s path =
                  (case ?inner j of Some (Inr h') \<Rightarrow> merge_keys (Suc j) ks h' d s path | r \<Rightarrow> r)"
                using step_dict[OF ds Some] True by blast
              obtain r1 where r1: "?inner m = Some r1"
                using r unfolding e[of m] by (cases "?inner m") auto
              then have r1': "?inner m' = Some r1" using Suc n'(2) by blast
              show "merge_keys n' (k # ks) h d s path = Some r"
              proof (cases r1)
                case (Inl x)
                then show ?thesis using r r1 r1' unfolding n'(1) e by auto
              next
                case (Inr h1)
                then have "merge_keys (Suc m) ks h1 d s path = Some r"
                  using r r1 unfolding e by simp
                then have "merge_keys n' ks h1 d s path = Some r"
                  using Cons[of h1] le by simp
                then show ?thesis using r1' Inr unfolding n'(1) e by simp
              qed
            qed
          next
            case nd: False
            show ?thesis
            proof (cases "isArray h (get_val h d k) \<and> isArray h (get_val h s k)")
              case True
              then show ?thesis using Cons nd by (simp add: step_array[OF ds Some])
            next
              case False
              then show ?thesis using nd by (simp add: step_conflict[OF ds Some])
            qed
          qed
        qed
      qed
    qed
  qed
qed

lemma merge_keys_mono:
  "merge_keys n ks h d s path = Some r \<Longrightarrow> n \<le> n' \<Longrightarrow> merge_keys n' ks h d s path = Some r"
  using merge_keys_mono_all by blast

subsection \<open>\<^verbatim>\<open>merge\<close>: conflicts and keys of the merged tree\<close>



lemma clash_head: "clash A B p \<Longrightarrow> \<exists>a b. map_of A (hd p) = Some a \<and> map_of B (hd p) = Some b"
  by (cases "(A, B, p)" rule: clash.cases) (auto split: option.splits json.splits)




lemma merge_tree_step_ex:
  assumes "merge_tree dest (p # src) path = Inr D'"
  shows "\<exists>D1. merge_tree D1 src path = Inr D' \<and> fst ` set D1 = insert (fst p) (fst ` set dest)
     \<and> (\<forall>k. k \<noteq> fst p \<longrightarrow> map_of D1 k = map_of dest k)
     \<and> (map_of dest (fst p) = None \<longrightarrow> map_of D1 (fst p) = Some (snd p))
     \<and> (\<forall>xs ys. map_of dest (fst p) = Some (JArr xs) \<and> snd p = JArr ys
           \<longrightarrow> map_of D1 (fst p) = Some (JArr (xs @ ys)))"
proof (cases "map_of dest (fst p)")
  case None
  then have nk: "fst p \<notin> fst ` set dest" by (simp add: map_of_eq_None_iff)
  have r: "merge_tree (add_prop (fst p) (snd p) dest) src path = Inr D'"
    using assms None by simp
  show ?thesis
    by (rule exI[of _ "add_prop (fst p) (snd p) dest"])
      (simp add: r keys_add_prop map_of_add_prop[OF nk] None)
next
  case (Some dv)
  have k0in: "fst p \<in> fst ` set dest" using Some by (metis domI dom_map_of_conv_image_fst)
  have ku: "fst ` set (upd_prop (fst p) v dest) = fst ` set dest" for v
  proof -
    have "set (map fst (upd_prop (fst p) v dest)) = set (map fst dest)"
      by (simp only: keys_upd_prop)
    then show ?thesis by (simp only: set_map)
  qed
  have up: "\<exists>D1. merge_tree D1 src path = Inr D' \<and> fst ` set D1 = insert (fst p) (fst ` set dest)
     \<and> (\<forall>k. k \<noteq> fst p \<longrightarrow> map_of D1 k = map_of dest k)
     \<and> (map_of dest (fst p) = None \<longrightarrow> map_of D1 (fst p) = Some (snd p))
     \<and> (\<forall>xs ys. map_of dest (fst p) = Some (JArr xs) \<and> snd p = JArr ys
           \<longrightarrow> map_of D1 (fst p) = Some (JArr (xs @ ys)))"
    if r: "merge_tree (upd_prop (fst p) v dest) src path = Inr D'"
      and a: "\<And>xs ys. dv = JArr xs \<Longrightarrow> snd p = JArr ys \<Longrightarrow> v = JArr (xs @ ys)" for v
  proof (rule exI[of _ "upd_prop (fst p) v dest"], intro conjI allI impI)
    show "merge_tree (upd_prop (fst p) v dest) src path = Inr D'" by (rule r)
    show "fst ` set (upd_prop (fst p) v dest) = insert (fst p) (fst ` set dest)"
      using ku k0in by blast
    show "map_of (upd_prop (fst p) v dest) k = map_of dest k" if "k \<noteq> fst p" for k
      using that by (simp add: map_of_upd_prop)
    show "map_of (upd_prop (fst p) v dest) (fst p) = Some (snd p)" if "map_of dest (fst p) = None"
      using that Some by simp
    show "map_of (upd_prop (fst p) v dest) (fst p) = Some (JArr (xs @ ys))"
      if "map_of dest (fst p) = Some (JArr xs) \<and> snd p = JArr ys" for xs ys
      using that Some a[of xs ys] by (simp add: map_of_upd_prop)
  qed
  show ?thesis
  proof (cases "snd p")
    case (JScalar x)
    then show ?thesis using assms Some by simp
  next
    case (JArr ys)
    show ?thesis
    proof (cases dv)
      case dv: (JArr xs)
      have r: "merge_tree (upd_prop (fst p) (JArr (xs @ ys)) dest) src path = Inr D'"
        using assms Some JArr dv by simp
      show ?thesis by (rule up[OF r]) (simp add: dv JArr)
    next
      case (JScalar x)
      then show ?thesis using assms Some JArr by simp
    next
      case (JObj a)
      then show ?thesis using assms Some JArr by simp
    qed
  next
    case (JObj b')
    show ?thesis
    proof (cases dv)
      case dv: (JObj a')
      show ?thesis
      proof (cases "merge_tree a' b' (path @ [fst p])")
        case (Inl e)
        then show ?thesis using assms Some JObj dv by simp
      next
        case (Inr a'')
        have r: "merge_tree (upd_prop (fst p) (JObj a'') dest) src path = Inr D'"
          using assms Some JObj dv Inr by simp
        show ?thesis by (rule up[OF r]) (simp add: dv)
      qed
    next
      case (JScalar x)
      then show ?thesis using assms Some JObj by simp
    next
      case (JArr xs)
      then show ?thesis using assms Some JObj by simp
    qed
  qed
qed

lemma merge_tree_step:
  assumes "merge_tree dest (p # src) path = Inr D'"
  obtains D1 where "merge_tree D1 src path = Inr D'"
    and "fst ` set D1 = insert (fst p) (fst ` set dest)"
    and "\<And>k. k \<noteq> fst p \<Longrightarrow> map_of D1 k = map_of dest k"
    and "map_of dest (fst p) = None \<Longrightarrow> map_of D1 (fst p) = Some (snd p)"
    and "\<And>xs ys. map_of dest (fst p) = Some (JArr xs) \<Longrightarrow> snd p = JArr ys
           \<Longrightarrow> map_of D1 (fst p) = Some (JArr (xs @ ys))"
proof -
  from merge_tree_step_ex[OF assms] obtain D1 where d:
    "merge_tree D1 src path = Inr D' \<and> fst ` set D1 = insert (fst p) (fst ` set dest)
     \<and> (\<forall>k. k \<noteq> fst p \<longrightarrow> map_of D1 k = map_of dest k)
     \<and> (map_of dest (fst p) = None \<longrightarrow> map_of D1 (fst p) = Some (snd p))
     \<and> (\<forall>xs ys. map_of dest (fst p) = Some (JArr xs) \<and> snd p = JArr ys
           \<longrightarrow> map_of D1 (fst p) = Some (JArr (xs @ ys)))" ..
  note d1 = d[THEN conjunct1]
  note d2 = d[THEN conjunct2, THEN conjunct1]
  note d3 = d[THEN conjunct2, THEN conjunct2, THEN conjunct1, rule_format]
  note d4 = d[THEN conjunct2, THEN conjunct2, THEN conjunct2, THEN conjunct1, rule_format]
  note d5 = d[THEN conjunct2, THEN conjunct2, THEN conjunct2, THEN conjunct2, rule_format]
  show thesis
  proof (rule that[of D1])
    show "merge_tree D1 src path = Inr D'" by (rule d1)
    show "fst ` set D1 = insert (fst p) (fst ` set dest)" by (rule d2)
    show "\<And>k. k \<noteq> fst p \<Longrightarrow> map_of D1 k = map_of dest k" by (rule d3)
    show "map_of dest (fst p) = None \<Longrightarrow> map_of D1 (fst p) = Some (snd p)" by (rule d4)
    show "\<And>xs ys. map_of dest (fst p) = Some (JArr xs) \<Longrightarrow> snd p = JArr ys
           \<Longrightarrow> map_of D1 (fst p) = Some (JArr (xs @ ys))"
      by (rule d5) simp
  qed
qed


lemma merge_tree_other:
  "merge_tree D B path = Inr D' \<Longrightarrow> k \<notin> fst ` set B \<Longrightarrow> map_of D' k = map_of D k"
proof (induction B arbitrary: D)
  case Nil
  then show ?case by simp
next
  case (Cons p src)
  from Cons.prems(1) show ?case
  proof (rule merge_tree_step)
    fix D1
    assume d: "merge_tree D1 src path = Inr D'"
      "fst ` set D1 = insert (fst p) (fst ` set D)"
      "\<And>k. k \<noteq> fst p \<Longrightarrow> map_of D1 k = map_of D k"
      "map_of D (fst p) = None \<Longrightarrow> map_of D1 (fst p) = Some (snd p)"
      "\<And>xs ys. map_of D (fst p) = Some (JArr xs) \<Longrightarrow> snd p = JArr ys
           \<Longrightarrow> map_of D1 (fst p) = Some (JArr (xs @ ys))"
  have k: "k \<noteq> fst p" "k \<notin> fst ` set src" using Cons.prems(2) by auto
  have "map_of D' k = map_of D1 k" by (rule Cons.IH[OF d(1) k(2)])
  with d(3)[OF k(1)] show ?thesis by simp
  qed
qed


lemma merge_tree_new:
  "merge_tree D B path = Inr D' \<Longrightarrow> distinct (map fst B) \<Longrightarrow> map_of D k = None
     \<Longrightarrow> map_of B k = Some v \<Longrightarrow> map_of D' k = Some v"
proof (induction B arbitrary: D)
  case Nil
  then show ?case by simp
next
  case (Cons p src)
  from Cons.prems(1) show ?case
  proof (rule merge_tree_step)
    fix D1
    assume d: "merge_tree D1 src path = Inr D'"
      "fst ` set D1 = insert (fst p) (fst ` set D)"
      "\<And>k. k \<noteq> fst p \<Longrightarrow> map_of D1 k = map_of D k"
      "map_of D (fst p) = None \<Longrightarrow> map_of D1 (fst p) = Some (snd p)"
      "\<And>xs ys. map_of D (fst p) = Some (JArr xs) \<Longrightarrow> snd p = JArr ys
           \<Longrightarrow> map_of D1 (fst p) = Some (JArr (xs @ ys))"
  have ds: "distinct (map fst src)" "fst p \<notin> fst ` set src" using Cons.prems(2) by auto
  show ?thesis
  proof (cases "k = fst p")
    case True
    then have "snd p = v" using Cons.prems(4) by (cases p) simp
    then have "map_of D1 k = Some v" using d(4) Cons.prems(3) True by simp
    moreover have "map_of D' k = map_of D1 k"
      by (rule merge_tree_other[OF d(1)]) (use True ds(2) in simp)
    ultimately show ?thesis by simp
  next
    case False
    then have "map_of src k = Some v" using Cons.prems(4) by (cases p) simp
    moreover have "map_of D1 k = None" using d(3)[OF False] Cons.prems(3) by simp
    ultimately show ?thesis using Cons.IH[OF d(1) ds(1)] by simp
  qed
  qed
qed

lemma clash_leaf:
  "(is_obj a \<and> is_scalar b) \<or> (is_scalar a \<and> is_obj b)
     \<Longrightarrow> \<not> (is_obj a \<and> is_obj b) \<and> \<not> (is_arr a \<and> is_arr b)"
  by (cases a; cases b; simp)

lemma clash_mismatch: "clash A B p \<Longrightarrow> mismatch A B p"
proof (induction A B p rule: clash.induct)
  case (1 A B)
  then show ?case by simp
next
  case (2 A B k)
  obtain a b where ab: "map_of A k = Some a" "map_of B k = Some b"
    using clash_head[OF "2.prems"] by auto
  then have "(is_obj a \<and> is_scalar b) \<or> (is_scalar a \<and> is_obj b)" using "2.prems" by simp
  from clash_leaf[OF this] show ?case using ab by simp
next
  case (3 A B k k' p)
  obtain a b where ab: "map_of A k = Some a" "map_of B k = Some b"
    using clash_head[OF "3.prems"] by auto
  obtain a' where a: "a = JObj a'" using "3.prems" ab by (cases a) simp_all
  obtain b' where b: "b = JObj b'" using "3.prems" ab a by (cases b) simp_all
  have "clash a' b' (k' # p)" using "3.prems" ab a b by simp
  then have "mismatch a' b' (k' # p)" using "3.IH" ab a b by simp
  then show ?case using ab a b by simp
qed

subsection \<open>\<^verbatim>\<open>merge\<close>: the two claims\<close>








text \<open>
  The hypothesis on the keys of \<open>B\<close> cannot be dropped, because \<^verbatim>\<open>key in dest\<close> is true for
  an inherited name. \<^verbatim>\<open>merge({}, {"toString": 1}, [])\<close> throws
  \<^verbatim>\<open>merging of key 'toString' failed\<close>; so does \<^verbatim>\<open>merge({"x": {}}, {"toString": 1, "x": 5}, [])\<close>,
  before it reaches \<^verbatim>\<open>x\<close>. \<^verbatim>\<open>merge({}, {"__proto__": {"a": 1}}, [])\<close> returns, having given
  \<^verbatim>\<open>dest\<close> no property and \<^verbatim>\<open>Object.prototype\<close> the property \<^verbatim>\<open>a\<close>; after that every
  dictionary has \<^verbatim>\<open>a\<close>, and \<^verbatim>\<open>merge({}, {"b": 2}, [])\<close> visits the inherited \<^verbatim>\<open>a\<close> as a
  key of \<open>src\<close> and throws \<^verbatim>\<open>merging of key 'a' failed\<close>.
\<close>

lemma merge_inherited_names:
  "merge 1 [Dict [], Dict [], Dict [(''toString'', Scalar (SNum 1))]] 1 2 []
     = Some (Inl (conflict [''toString'']))
   \<and> merge 1 [Dict [], Dict [(''x'', Ref 3)], Dict [(''toString'', Scalar (SNum 1)), (''x'', Scalar (SNum 5))],
               Dict []] 1 2 []
     = Some (Inl (conflict [''toString'']))
   \<and> merge 1 [Dict [], Dict [], Dict [(''__proto__'', Ref 3)], Dict [(''a'', Scalar (SNum 1))]] 1 2 []
     = Some (Inr [Dict [(''a'', Scalar (SNum 1))], Dict [], Dict [(''__proto__'', Ref 3)],
                  Dict [(''a'', Scalar (SNum 1))]])
   \<and> merge 1 [Dict [(''a'', Scalar (SNum 1))], Dict [], Dict [(''b'', Scalar (SNum 2))]] 1 2 []
     = Some (Inl (conflict [''a'']))"
  by code_simp

subsection \<open>explode and the configuration of a run\<close>

text \<open>
  C5. \<^verbatim>\<open>explode({"a.b.c.d": 42})\<close> is \<^verbatim>\<open>{"a":{"b":{"c":{"d":42}}}}\<close>, and the two
  fragments of the documentation, exploded and merged in that order, give
  \<^verbatim>\<open>{"example":{"array":[1,2,3,4],"something":{"a":1,"b":2}},"someMember":42}\<close>
  (as objects: up to the order of the keys).
\<close>

theorem explode_and_merge_examples:
  "explode_parsed 4 (JObj [(''a.b.c.d'', JScalar (SNum 42))])
     = Some (Inr (JObj [(''a'', JObj [(''b'', JObj [(''c'', JObj [(''d'', JScalar (SNum 42))])])])]))
   \<and> map_option (map_sum id canon) (load_config 4
       [(''first.config.json'',
          JObj [(''example.array'', JArr [JScalar (SNum 1), JScalar (SNum 2)]),
                (''example.something.a'', JScalar (SNum 1)),
                (''someMember'', JScalar (SNum 42))]),
        (''second.config.json'',
          JObj [(''example'',
                  JObj [(''array'', JArr [JScalar (SNum 3), JScalar (SNum 4)]),
                        (''something'', JObj [(''b'', JScalar (SNum 2))])])])])
     = Some (Inr (canon (JObj
         [(''example'',
            JObj [(''array'', JArr [JScalar (SNum 1), JScalar (SNum 2), JScalar (SNum 3), JScalar (SNum 4)]),
                  (''something'', JObj [(''a'', JScalar (SNum 1)), (''b'', JScalar (SNum 2))])]),
          (''someMember'', JScalar (SNum 42))])))"
  by code_simp

text \<open>
  C4. \<^verbatim>\<open>explode\<close> is not idempotent. On
  \<^verbatim>\<open>{"a": {"b": {"x": 1}}, "a.b": {"c.d": 1}}\<close> the value of \<^verbatim>\<open>"a.b"\<close> is merged into
  the dictionary at \<^verbatim>\<open>a.b\<close> key by key, and the \<^verbatim>\<open>explode(value, list)\<close> that follows
  works on the object \<^verbatim>\<open>value\<close>, which the result no longer holds: the first call
  returns \<^verbatim>\<open>{"a":{"b":{"x":1,"c.d":1}}}\<close>, with a dotted key left, and the second call
  turns it into \<^verbatim>\<open>{"a":{"b":{"x":1,"c":{"d":1}}}}\<close>.
\<close>

theorem explode_not_idempotent:
  "explode_parsed 4 (JObj [(''a'', JObj [(''b'', JObj [(''x'', JScalar (SNum 1))])]),
                           (''a.b'', JObj [(''c.d'', JScalar (SNum 1))])])
     = Some (Inr (JObj [(''a'', JObj [(''b'', JObj [(''x'', JScalar (SNum 1)), (''c.d'', JScalar (SNum 1))])])]))
   \<and> explode_twice 4 (JObj [(''a'', JObj [(''b'', JObj [(''x'', JScalar (SNum 1))])]),
                            (''a.b'', JObj [(''c.d'', JScalar (SNum 1))])])
     = Some (Inr (JObj [(''a'', JObj [(''b'', JObj [(''x'', JScalar (SNum 1)),
                                                   (''c'', JObj [(''d'', JScalar (SNum 1))])])])]))"
  by code_simp

subsection \<open>Blocks of a template\<close>

lemma run_lits: "rx_run (lits w) s c k = (if prefix w s then k (drop (length w) s) c else None)"
proof (induction w arbitrary: s rule: lits.induct)
  case 1
  then show ?case by simp
next
  case (2 x)
  then show ?case by (cases s) auto
next
  case (3 x y ys)
  then show ?case by (cases s) auto
qed

lemma open_run:
  "rx_run open_rx s c k =
     orelse (try_prefix (CR # LF # ''<??'') s c k)
       (orelse (try_prefix (CR # ''<??'') s c k)
         (orelse (try_prefix (LF # ''<??'') s c k)
           (orelse (try_prefix ''<??'' s c k) (try_prefix ''<?'' s c k))))"
proof (cases s)
  case Nil
  then show ?thesis by (simp add: open_rx_def orelse_def run_lits try_prefix_def del: lits.simps)
next
  case s: (Cons x s1)
  show ?thesis
  proof (cases "x = CR")
    case True
    show ?thesis
    proof (cases s1)
      case Nil
      with s True show ?thesis
        by (simp add: open_rx_def orelse_def run_lits try_prefix_def del: lits.simps)
    next
      case (Cons y s2)
      show ?thesis
      proof (cases "y = LF")
        case True
        with s \<open>x = CR\<close> Cons show ?thesis
          by (simp add: open_rx_def orelse_def run_lits try_prefix_def del: lits.simps split: option.splits)
      next
        case False
        with s \<open>x = CR\<close> Cons show ?thesis
          by (simp add: open_rx_def orelse_def run_lits try_prefix_def del: lits.simps split: option.splits)
      qed
    qed
  next
    case False
    show ?thesis
    proof (cases "x = LF")
      case True
      with s show ?thesis
        by (simp add: open_rx_def orelse_def run_lits try_prefix_def del: lits.simps split: option.splits)
    next
      case nlf: False
      with s False show ?thesis
        by (simp add: open_rx_def orelse_def run_lits try_prefix_def del: lits.simps split: option.splits)
    qed
  qed
qed

lemma open_fail:
  assumes "\<not> prefix ''<?'' s" "\<not> prefix (CR # ''<??'') s" "\<not> prefix (LF # ''<??'') s"
    "\<not> prefix (CR # LF # ''<??'') s"
  shows "rx_run open_rx s c k = None"
proof -
  have "\<not> prefix ''<??'' s" using assms(1) by (auto simp: prefix_def)
  with assms show ?thesis by (simp add: open_run try_prefix_def orelse_def)
qed

lemma open_long: "k s c = Some r \<Longrightarrow> rx_run open_rx (LF # ''<??'' @ s) c k = Some r"
  by (simp add: open_run try_prefix_def orelse_def)

lemma open_short: "\<not> prefix ''?'' s \<Longrightarrow> rx_run open_rx (''<?'' @ s) c k = k s c"
  by (simp add: open_run try_prefix_def orelse_def split: option.splits)

lemma close_fail:
  assumes "\<not> prefix ''?>'' s" "\<not> prefix ''??>'' s"
  shows "rx_run close_rx s c k = None"
  using assms by (simp add: close_rx_def run_lits orelse_def del: lits.simps)

lemma close_long: "k s c = Some r \<Longrightarrow> rx_run close_rx (''??>'' @ LF # s) c k = Some r"
  by (simp add: close_rx_def orelse_def)

lemma close_short: "rx_run close_rx (''?>'' @ s) c k = k s c"
  by (simp add: close_rx_def orelse_def)

lemma lazy_skip:
  assumes "\<And>y ys c' k'. f (y # ys) c' k' = k' ys c'"
    "\<forall>v. suffix v xs \<and> v \<noteq> [] \<longrightarrow> k (v @ R) c = None" "k R c = Some r"
    "length (xs @ R) \<le> n"
  shows "lazy n f (xs @ R) c k = Some r"
  using assms(2-)
proof (induction xs arbitrary: n)
  case Nil
  then show ?case by (cases n) (simp_all add: orelse_def)
next
  case (Cons x xs)
  then obtain m where n: "n = Suc m" by (cases n) auto
  have "suffix (x # xs) (x # xs) \<and> x # xs \<noteq> []" by simp
  then have 1: "k ((x # xs) @ R) c = None" using Cons.prems(1) by blast
  have 2: "\<forall>v. suffix v xs \<and> v \<noteq> [] \<longrightarrow> k (v @ R) c = None"
    using Cons.prems(1) by (simp add: suffix_Cons)
  have 3: "length (xs @ R) \<le> m" using Cons.prems(3) n by simp
  have "lazy m f (xs @ R) c k = Some r"
    by (rule Cons.IH[OF 2 Cons.prems(2) 3])
  then show ?case using 1 n by (simp add: orelse_def assms(1))
qed

lemma no_close_inside:
  assumes "\<not> sublist ''?>'' code" "lc \<or> last code \<noteq> CHR ''?''" "suffix v code" "v \<noteq> []"
  shows "\<not> prefix ''?>'' (v @ closer lc @ R) \<and> \<not> prefix ''??>'' (v @ closer lc @ R)"
proof -
  obtain u where code: "code = u @ v" using assms(3) by (auto simp: suffix_def)
  have ns: "\<And>a b. code \<noteq> a @ ''?>'' @ b" using assms(1) by (auto simp: sublist_def)
  obtain x v1 where v: "v = x # v1" using assms(4) by (cases v) auto
  show ?thesis
  proof (cases v1)
    case Nil
    then have "last code = x" using code v by simp
    then have "lc \<or> x \<noteq> CHR ''?''" using assms(2) by simp
    then show ?thesis unfolding v Nil by (cases lc) (auto simp: closer_def)
  next
    case v1: (Cons y v2)
    show ?thesis
    proof (cases v2)
      case Nil
      have "\<not> (x = CHR ''?'' \<and> y = CHR ''>'')"
        using ns[of u "[]"] code v v1 Nil by auto
      with v v1 Nil show ?thesis by (auto simp: closer_def)
    next
      case (Cons z v3)
      have "\<not> (x = CHR ''?'' \<and> y = CHR ''>'')"
        using ns[of u "z # v3"] code v v1 Cons by auto
      moreover have "\<not> (y = CHR ''?'' \<and> z = CHR ''>'')"
        using ns[of "u @ [x]" v3] code v v1 Cons by auto
      ultimately show ?thesis using v v1 Cons by auto
    qed
  qed
qed

lemma block_match:
  assumes "block_code lo lc code" "lo \<or> \<not> prefix ''?'' code"
  shows "rx_run (Seq (Group 1 (LazyPlus (NoneOf []))) close_rx) (code @ closer lc @ LF # Y) c
           (\<lambda>s' c'. Some (s', c'))
         = Some (if lc then Y else LF # Y, c(1 \<mapsto> code))"
proof -
  obtain x xs where code: "code = x # xs" using assms(1) by (cases code) (auto simp: block_code_def)
  let ?R = "closer lc @ LF # Y"
  let ?k = "\<lambda>s' c'. rx_run close_rx s' (c'(1 \<mapsto> take (length (code @ ?R) - length s') (code @ ?R)))
                (\<lambda>s' c'. Some (s', c'))"
  have fail: "\<forall>v. suffix v xs \<and> v \<noteq> [] \<longrightarrow> ?k (v @ ?R) c = None"
  proof (intro allI impI)
    fix v assume v: "suffix v xs \<and> v \<noteq> []"
    then have "suffix v code" using code by (simp add: suffix_Cons)
    with assms(1) v have "\<not> prefix ''?>'' (v @ closer lc @ LF # Y) \<and> \<not> prefix ''??>'' (v @ closer lc @ LF # Y)"
      using no_close_inside[of code lc v "LF # Y"] by (simp add: block_code_def)
    then show "?k (v @ ?R) c = None" by (simp add: close_fail)
  qed
  have ok: "?k ?R c = Some (if lc then Y else LF # Y, c(1 \<mapsto> code))"
  proof (cases lc)
    case True
    then show ?thesis by (simp add: closer_def close_rx_def orelse_def)
  next
    case False
    then show ?thesis by (simp add: closer_def close_rx_def orelse_def)
  qed
  have "lazy (length (xs @ ?R)) (rx_run (NoneOf [])) (xs @ ?R) c ?k
          = Some (if lc then Y else LF # Y, c(1 \<mapsto> code))"
    by (rule lazy_skip[where k = ?k, OF _ fail ok]) simp_all
  then show ?thesis using code by simp
qed

lemma no_open_before:
  assumes ns: "\<And>a b. X \<noteq> a @ ''<?'' @ b" and X: "X = P @ S" and S: "S \<noteq> []"
    and w: "w = CHR ''?'' \<longrightarrow> last S \<noteq> CR"
  shows "rx_run open_rx (S @ LF # CHR ''<'' # CHR ''?'' # w # R) c k = None"
proof -
  obtain x S1 where S1: "S = x # S1" using S by (cases S) auto
  show ?thesis
  proof (cases S1)
    case Nil
    with S1 w show ?thesis by (intro open_fail) auto
  next
    case c1: (Cons y S2)
    have xy: "\<not> (x = CHR ''<'' \<and> y = CHR ''?'')"
      using ns[of P S2] X S1 c1 by auto
    show ?thesis
    proof (cases S2)
      case Nil
      with S1 c1 xy show ?thesis by (intro open_fail) auto
    next
      case c2: (Cons z S3)
      have yz: "\<not> (y = CHR ''<'' \<and> z = CHR ''?'')"
        using ns[of "P @ [x]" S3] X S1 c1 c2 by auto
      show ?thesis
      proof (cases S3)
        case Nil
        with S1 c1 c2 xy yz show ?thesis by (intro open_fail) auto
      next
        case c3: (Cons u S4)
        have zu: "\<not> (z = CHR ''<'' \<and> u = CHR ''?'')"
          using ns[of "P @ [x, y]" S4] X S1 c1 c2 c3 by auto
        with S1 c1 c2 c3 xy yz show ?thesis by (intro open_fail) auto
      qed
    qed
  qed
qed

lemma no_block_before:
  assumes "plain_before lo X" "suffix S X" "S \<noteq> []" "lo \<or> \<not> prefix ''?'' code" "code \<noteq> []"
  shows "rx_match block_rx (S @ LF # opener lo @ code @ T) = None"
proof -
  obtain P where X: "X = P @ S" using assms(2) by (auto simp: suffix_def)
  have ns: "\<And>a b. X \<noteq> a @ ''<?'' @ b" using assms(1) by (auto simp: plain_before_def sublist_def)
  have lastS: "last X = last S" using X assms(3) by simp
  obtain x xs where code: "code = x # xs" using assms(5) by (cases code) auto
  show ?thesis
  proof (cases lo)
    case True
    then have "CHR ''?'' = CHR ''?'' \<longrightarrow> last S \<noteq> CR"
      using assms(1,3) X lastS by (auto simp: plain_before_def)
    from no_open_before[OF ns X assms(3) this, of "code @ T"] True
    show ?thesis by (simp add: rx_match_def block_rx_def opener_def)
  next
    case False
    then have "x \<noteq> CHR ''?''" using assms(4) code by simp
    then have "x = CHR ''?'' \<longrightarrow> last S \<noteq> CR" by simp
    from no_open_before[OF ns X assms(3) this, of "xs @ T"] False code
    show ?thesis by (simp add: rx_match_def block_rx_def opener_def)
  qed
qed

lemma scan_keep:
  assumes "\<forall>S. suffix S X \<and> S \<noteq> [] \<longrightarrow> rx_match r (S @ R) = None"
  shows "scan r (X @ R) = map Keep X @ scan r R"
  using assms
proof (induction X)
  case Nil
  then show ?case by simp
next
  case (Cons x X)
  have "suffix (x # X) (x # X) \<and> x # X \<noteq> []" by simp
  then have 1: "rx_match r ((x # X) @ R) = None" using Cons.prems by blast
  have 2: "\<forall>S. suffix S X \<and> S \<noteq> [] \<longrightarrow> rx_match r (S @ R) = None"
    using Cons.prems by (simp add: suffix_Cons)
  have "scan r ((x # X) @ R) = Keep x # scan r (X @ R)"
    using 1 by (subst scan.simps) simp
  then show ?case using Cons.IH[OF 2] by simp
qed

lemma fill_keep:
  "fill f st (map Keep X @ ps) =
     (case fill f st ps of Inl e \<Rightarrow> Inl e | Inr (out, st') \<Rightarrow> Inr (X @ out, st'))"
  by (induction X) (auto split: sum.splits prod.splits)

lemma match_block_rx:
  "rx_match block_rx s = rx_run open_rx s (\<lambda>i. None)
     (\<lambda>s' c'. rx_run (Seq (Group 1 (LazyPlus (NoneOf []))) close_rx) s' c' (\<lambda>s' c'. Some (s', c')))"
  by (simp only: rx_match_def block_rx_def rx_run.simps)

lemma block_hit:
  assumes "block_code lo lc code"
  shows "scan block_rx ((if lo then [LF] else []) @ opener lo @ code @ closer lc @ LF # Y)
     = Hit ((if lo then [LF] else []) @ opener lo @ code @ closer lc @ (if lc then [LF] else []))
         ((\<lambda>i. None)(1 \<mapsto> code))
       # scan block_rx (if lc then Y else LF # Y)"
proof -
  have q: "lo \<or> \<not> prefix ''?'' code" using assms by (cases code) (auto simp: block_code_def)
  let ?s = "(if lo then [LF] else []) @ opener lo @ code @ closer lc @ LF # Y"
  let ?K = "\<lambda>s' c'. rx_run (Seq (Group 1 (LazyPlus (NoneOf []))) close_rx) s' c' (\<lambda>s' c'. Some (s', c'))"
  have bm: "?K (code @ closer lc @ LF # Y) (\<lambda>i. None) = Some (if lc then Y else LF # Y, (\<lambda>i. None)(1 \<mapsto> code))"
    by (rule block_match[OF assms q])
  have m: "rx_match block_rx ?s = Some (if lc then Y else LF # Y, (\<lambda>i. None)(1 \<mapsto> code))"
  proof (cases lo)
    case True
    have "rx_run open_rx (LF # ''<??'' @ (code @ closer lc @ LF # Y)) (\<lambda>i. None) ?K
          = Some (if lc then Y else LF # Y, (\<lambda>i. None)(1 \<mapsto> code))"
      by (rule open_long) (rule bm)
    moreover have "?s = LF # ''<??'' @ (code @ closer lc @ LF # Y)"
      using True by (simp add: opener_def)
    ultimately show ?thesis by (simp only: match_block_rx)
  next
    case False
    then have np: "\<not> prefix ''?'' (code @ closer lc @ LF # Y)"
      using q assms by (cases code) (auto simp: block_code_def)
    have "rx_run open_rx (''<?'' @ (code @ closer lc @ LF # Y)) (\<lambda>i. None) ?K
          = ?K (code @ closer lc @ LF # Y) (\<lambda>i. None)"
      by (rule open_short[OF np])
    moreover have "?s = ''<?'' @ (code @ closer lc @ LF # Y)"
      using False by (simp add: opener_def)
    ultimately show ?thesis using bm by (simp only: match_block_rx)
  qed
  have len: "length (if lc then Y else LF # Y) < length ?s"
    by (simp add: opener_def closer_def)
  have tk: "take (length ?s - length (if lc then Y else LF # Y)) ?s
      = (if lo then [LF] else []) @ opener lo @ code @ closer lc @ (if lc then [LF] else [])"
    by (simp add: opener_def closer_def)
  show ?thesis
    by (subst scan.simps) (simp only: m option.case prod.case len if_True tk)
qed

text \<open>
  C6. Take a block with the code \<open>code\<close> between an opening and a closing marker, each
  long or short, on a line of its own after the text \<open>X\<close> and before the text \<open>Y\<close>. The
  long opening marker takes the newline before it and the short one leaves it; the long
  closing marker takes the newline after it and the short one leaves it; the one does
  not depend on the other. The output is \<open>X\<close> (and the newline, after a short opening
  marker), the replacement of the block, and what the rest of the file gives (the
  newline first, after a short closing marker).
\<close>

theorem block_newlines:
  assumes "block_code lo lc code" "plain_before lo X"
  shows "render run ctx (X @ [LF] @ opener lo @ code @ closer lc @ [LF] @ Y) =
     (case run ctx code of
       Inl e \<Rightarrow> Inl e
     | Inr (v, ctx') \<Rightarrow>
         (case render run ctx' (if lc then Y else [LF] @ Y) of
           Inl e \<Rightarrow> Inl e
         | Inr (out, ctx'') \<Rightarrow> Inr ((if lo then X else X @ [LF]) @ replacement v @ out, ctx'')))"
proof -
  have q: "lo \<or> \<not> prefix ''?'' code" using assms(1) by (cases code) (auto simp: block_code_def)
  have ne: "code \<noteq> []" using assms(1) by (simp add: block_code_def)
  let ?T = "closer lc @ LF # Y"
  have pre: "\<forall>S. suffix S X \<and> S \<noteq> [] \<longrightarrow> rx_match block_rx (S @ (LF # opener lo @ code @ ?T)) = None"
    using no_block_before[OF assms(2) _ _ q ne] by blast
  have s1: "scan block_rx (X @ LF # opener lo @ code @ ?T) = map Keep X @ scan block_rx (LF # opener lo @ code @ ?T)"
    by (rule scan_keep[OF pre])
  have s2: "scan block_rx (LF # opener lo @ code @ ?T)
      = (if lo then [] else [Keep LF])
        @ Hit ((if lo then [LF] else []) @ opener lo @ code @ closer lc @ (if lc then [LF] else []))
            ((\<lambda>i. None)(1 \<mapsto> code))
        # scan block_rx (if lc then Y else LF # Y)"
  proof (cases lo)
    case True
    with block_hit[OF assms(1), of Y] show ?thesis by simp
  next
    case False
    obtain x xs where code: "code = x # xs" using ne by (cases code) auto
    have "x \<noteq> CHR ''?''" using q False code by simp
    then have "rx_run open_rx (LF # CHR ''<'' # CHR ''?'' # x # (xs @ ?T)) (\<lambda>i. None)
        (\<lambda>s' c'. rx_run (Seq (Group 1 (LazyPlus (NoneOf []))) close_rx) s' c' (\<lambda>s' c'. Some (s', c'))) = None"
      by (intro open_fail) auto
    moreover have "LF # opener lo @ code @ ?T = LF # CHR ''<'' # CHR ''?'' # x # (xs @ ?T)"
      using False code by (simp add: opener_def)
    ultimately have "rx_match block_rx (LF # opener lo @ code @ ?T) = None"
      by (simp only: match_block_rx)
    then have "scan block_rx (LF # opener lo @ code @ ?T) = Keep LF # scan block_rx (opener lo @ code @ ?T)"
      by (subst scan.simps) simp
    with block_hit[OF assms(1), of Y] False show ?thesis by simp
  qed
  show ?thesis
    unfolding render_def replace_def
    using s1 s2
    by (cases lo) (auto simp: fill_keep block_cb_def group_text_def split: sum.splits prod.splits)
qed

theorem block_newlines_witness:
  "block_code True True ''code'' \<and> block_code False False ''code''
   \<and> block_code True False ''code'' \<and> block_code False True ''code''
   \<and> plain_before True ''X'' \<and> plain_before False ''X''
   \<and> render toy_run [(''code'', Str ''R'')] (''X'' @ [LF] @ ''<??code??>'' @ [LF] @ ''Y'')
       = Inr (''XRY'', [(''code'', Str ''R'')])
   \<and> render toy_run [(''code'', Str ''R'')] (''X'' @ [LF] @ ''<?code?>'' @ [LF] @ ''Y'')
       = Inr (''X'' @ [LF] @ ''R'' @ [LF] @ ''Y'', [(''code'', Str ''R'')])
   \<and> render toy_run [(''code'', Str ''R'')] (''X'' @ [LF] @ ''<??code?>'' @ [LF] @ ''Y'')
       = Inr (''XR'' @ [LF] @ ''Y'', [(''code'', Str ''R'')])
   \<and> render toy_run [(''code'', Str ''R'')] (''X'' @ [LF] @ ''<?code??>'' @ [LF] @ ''Y'')
       = Inr (''X'' @ [LF] @ ''RY'', [(''code'', Str ''R'')])"
proof -
  have c: "block_code True True ''code''" "block_code False False ''code''"
    "block_code True False ''code''" "block_code False True ''code''"
    by (simp_all add: block_code_def sublist_code(3))
  have p: "plain_before True ''X''" "plain_before False ''X''"
    by (simp_all add: plain_before_def sublist_code(3))
  have y: "render toy_run [(''code'', Str ''R'')] ''Y'' = Inr (''Y'', [(''code'', Str ''R'')])"
    "render toy_run [(''code'', Str ''R'')] [LF, CHR ''Y''] = Inr ([LF, CHR ''Y''], [(''code'', Str ''R'')])"
    by (simp_all add: render_def replace_def block_rx_def open_rx_def close_rx_def rx_match_def orelse_def scan.simps)
  have r: "toy_run [(''code'', Str ''R'')] ''code'' = Inr (Str ''R'', [(''code'', Str ''R'')])"
    by (simp add: toy_run_def)
  show ?thesis
    using c p
      block_newlines[OF c(1) p(1), of toy_run "[(''code'', Str ''R'')]" "''Y''"]
      block_newlines[OF c(2) p(2), of toy_run "[(''code'', Str ''R'')]" "''Y''"]
      block_newlines[OF c(3) p(1), of toy_run "[(''code'', Str ''R'')]" "''Y''"]
      block_newlines[OF c(4) p(2), of toy_run "[(''code'', Str ''R'')]" "''Y''"]
    by (simp add: opener_def closer_def r y replacement_def)
qed

lemma scan_long_markers:
  "scan block_rx (''X'' @ [LF] @ ''<??f=1??>'' @ [LF] @ ''Y'')
     = [Keep CHR ''X'', Hit ([LF] @ ''<??f=1??>'' @ [LF]) ((\<lambda>i. None)(1 \<mapsto> ''f=1'')), Keep CHR ''Y'']"
  by (simp add: block_rx_def open_rx_def close_rx_def rx_match_def orelse_def scan.simps)

text \<open>
  C7. A block whose code evaluates to \<^verbatim>\<open>undefined\<close> contributes nothing: whatever the
  matched span \<open>m\<close> of the block is (it holds the markers, the code and the newlines the
  long markers took, as \<open>scan_long_markers\<close> shows), the output continues with what
  the rest of the file produces, in the context the block left.
\<close>

theorem undefined_block_vanishes:
  assumes "run ctx (group_text (c 1)) = Inr (Undef, ctx')"
  shows "fill (block_cb run) ctx (Hit m c # ps) = fill (block_cb run) ctx' ps"
  using assms by (simp add: block_cb_def replacement_def split: sum.splits prod.splits)

theorem undefined_block_vanishes_witness:
  "scan block_rx (''X'' @ [LF] @ ''<??f=1??>'' @ [LF] @ ''Y'')
     = [Keep CHR ''X'', Hit ([LF] @ ''<??f=1??>'' @ [LF]) ((\<lambda>i. None)(1 \<mapsto> ''f=1'')), Keep CHR ''Y'']
   \<and> toy_run [] (group_text (((\<lambda>i. None)(1 \<mapsto> ''f=1'')) 1)) = Inr (Undef, [(''f'', Str ''1'')])
   \<and> fill (block_cb toy_run) []
        [Keep CHR ''X'', Hit ([LF] @ ''<??f=1??>'' @ [LF]) ((\<lambda>i. None)(1 \<mapsto> ''f=1'')), Keep CHR ''Y'']
      = Inr (''XY'', [(''f'', Str ''1'')])"
proof -
  have h: "toy_run [] (group_text (((\<lambda>i. None)(1 \<mapsto> ''f=1'')) 1)) = Inr (Undef, [(''f'', Str ''1'')])"
    by (simp add: toy_run_def group_text_def)
  have "fill (block_cb toy_run) [] (Hit ([LF] @ ''<??f=1??>'' @ [LF]) ((\<lambda>i. None)(1 \<mapsto> ''f=1'')) # [Keep CHR ''Y''])
      = fill (block_cb toy_run) [(''f'', Str ''1'')] [Keep CHR ''Y'']"
    by (rule undefined_block_vanishes[where run = toy_run and ctx = "[]"
          and c = "(\<lambda>i. None)(1 \<mapsto> ''f=1'')", OF h])
  then have "fill (block_cb toy_run) []
        [Keep CHR ''X'', Hit ([LF] @ ''<??f=1??>'' @ [LF]) ((\<lambda>i. None)(1 \<mapsto> ''f=1'')), Keep CHR ''Y'']
      = Inr (''XY'', [(''f'', Str ''1'')])"
    by simp
  with h scan_long_markers show ?thesis by blast
qed

text \<open>
  C10. The replacement of a block is the empty string when its result is \<^verbatim>\<open>undefined\<close>
  and the string form of the result otherwise; \<^verbatim>\<open>null\<close> gives the four characters
  \<^verbatim>\<open>null\<close>. \<^verbatim>\<open>undefined\<close> is not the only result with an empty replacement: the string
  form of the empty string is empty too.
\<close>

theorem block_result_as_text:
  "block_cb run ctx m c =
     (case run ctx (group_text (c 1)) of
       Inl e \<Rightarrow> Inl e
     | Inr (v, ctx') \<Rightarrow> Inr (if v = Undef then [] else to_string v, ctx'))
   \<and> to_string Null = ''null''"
  by (simp add: block_cb_def replacement_def split: sum.splits prod.splits)

theorem empty_string_block_counterexample:
  "\<not> (\<forall>v. replacement v = [] \<longrightarrow> v = Undef)"
proof
  assume "\<forall>v. replacement v = [] \<longrightarrow> v = Undef"
  then have "replacement (Str []) = [] \<longrightarrow> Str [] = Undef" by blast
  then show False by (simp add: replacement_def)
qed

text \<open>
  C1. The files of one run share their context. \<^verbatim>\<open>sandbox\<close> is built once and
  \<^verbatim>\<open>vm.createContext\<close> returns it for every file, so what the blocks of one file define
  is there for the blocks of the next one: with the files \<^verbatim>\<open>a.template\<close> and
  \<^verbatim>\<open>b.template\<close> in that order, the block of the second reads what the block of the
  first bound, while \<^verbatim>\<open>b.template\<close> alone ends the run with \<^verbatim>\<open>f is not defined\<close>.
\<close>

theorem context_leaks_across_files:
  "(case process_templates toy_run (\<lambda>c. []) [] [''a.template'', ''b.template'']
           [''a.template'' \<mapsto> ''<?f=leaked?>'', ''b.template'' \<mapsto> ''<?f?>''] [] of
      Inr (disk, ctx) \<Rightarrow> disk ''b'' = Some ''leaked''
    | Inl reason \<Rightarrow> False)
   \<and> (case process_templates toy_run (\<lambda>c. []) [] [''b.template'']
           [''a.template'' \<mapsto> ''<?f=leaked?>'', ''b.template'' \<mapsto> ''<?f?>''] [] of
      Inr (disk, ctx) \<Rightarrow> False
    | Inl reason \<Rightarrow> reason = ''f is not defined'')"
  by code_simp

subsection \<open>\<^verbatim>\<open>Clib.format\<close>\<close>

lemma fill_symbol_mode:
  "fill symbol_cb (ind, m) ps = Inr (out, (ind', m')) \<Longrightarrow> 0 \<le> m \<Longrightarrow> 0 \<le> m'"
proof (induction ps arbitrary: ind m out)
  case Nil
  then show ?case by simp
next
  case (Cons p ps)
  show ?case
  proof (cases p)
    case (Keep x)
    with Cons show ?thesis by (auto split: sum.splits prod.splits)
  next
    case (Hit t c)
    obtain o1 i1 m1 where cb: "symbol_cb (ind, m) t c = Inr (o1, (i1, m1))"
      by (cases "symbol_cb (ind, m) t c") (auto simp: symbol_cb_def split: if_splits)
    have "0 \<le> m1" using cb Cons.prems(2)
      by (auto simp: symbol_cb_def split: if_splits)
    moreover obtain o2 where "fill symbol_cb (i1, m1) ps = Inr (o2, (ind', m'))"
      using Cons.prems(1) Hit cb by (auto split: sum.splits prod.splits)
    ultimately show ?thesis using Cons.IH by blast
  qed
qed

lemma match_open1: "rx_match symbol_rx (''= {'' @ s) = Some (s, (\<lambda>i. None)(1 \<mapsto> ''= {''))"
  by (simp add: rx_match_def symbol_rx_def orelse_def space_class_def)

lemma match_open2: "rx_match symbol_rx (''{'' @ s) = Some (s, (\<lambda>i. None)(2 \<mapsto> ''{''))"
  by (simp add: rx_match_def symbol_rx_def orelse_def space_class_def)

lemma match_comma: "rx_match symbol_rx ('','' @ s) = Some (s, (\<lambda>i. None)(3 \<mapsto> '',''))"
  by (simp add: rx_match_def symbol_rx_def orelse_def space_class_def)

text \<open>
  C9. In any state \<open>(indent, mode)\<close> that the replacer of the second expression reaches
  from the start of a \<^verbatim>\<open>format\<close> call: an opening brace after \<^verbatim>\<open>"= "\<close> gives
  \<^verbatim>\<open>mode + 1\<close>, which is positive; a bare opening brace gives \<^verbatim>\<open>mode + 1\<close> when \<open>mode\<close>
  is positive and \<open>0\<close> otherwise; a comma is replaced by a comma, a newline and the
  indent when \<open>mode\<close> is positive and by a comma alone otherwise.
\<close>

theorem initializer_mode_rules:
  assumes "symbol_scan n ps = Inr (out, (indent, mode))"
  shows "symbol_at (indent, mode) (''= {'' @ s)
           = Some (Inr (''= {'' @ [LF] @ indent @ [TAB], (indent @ [TAB], mode + 1)))
       \<and> 0 < mode + 1
       \<and> symbol_at (indent, mode) (''{'' @ s)
           = Some (Inr (''{'' @ [LF] @ indent @ [TAB], (indent @ [TAB], if 0 < mode then mode + 1 else 0)))
       \<and> symbol_at (indent, mode) ('','' @ s)
           = Some (Inr (if 0 < mode then '','' @ [LF] @ indent else '','', (indent, mode)))"
proof -
  have m: "0 \<le> mode"
    using assms fill_symbol_mode[of "replicate n TAB" 0 ps out indent mode]
    by (simp add: symbol_scan_def)
  have a: "symbol_at (indent, mode) (''= {'' @ s)
           = Some (Inr (''= {'' @ [LF] @ indent @ [TAB], (indent @ [TAB], mode + 1)))"
    unfolding symbol_at_def match_open1 by (simp add: symbol_cb_def truthy_def)
  have b: "symbol_at (indent, mode) (''{'' @ s)
           = Some (Inr (''{'' @ [LF] @ indent @ [TAB], (indent @ [TAB], if 0 < mode then mode + 1 else 0)))"
    unfolding symbol_at_def match_open2 by (simp add: symbol_cb_def truthy_def)
  have c: "symbol_at (indent, mode) ('','' @ s)
           = Some (Inr (if 0 < mode then '','' @ [LF] @ indent else '','', (indent, mode)))"
    unfolding symbol_at_def match_comma by (simp add: symbol_cb_def truthy_def)
  from m a b c show ?thesis by simp
qed

theorem initializer_mode_rules_witness:
  "symbol_scan 0 (scan symbol_rx ''x = {{'') = Inr (''x = {'' @ [LF, TAB] @ ''{'' @ [LF, TAB, TAB], ([TAB, TAB], 2))
   \<and> symbol_at ([TAB, TAB], 2) (''= {'' @ ''1'') = Some (Inr (''= {'' @ [LF, TAB, TAB, TAB], ([TAB, TAB, TAB], 3)))
   \<and> symbol_at ([TAB, TAB], 2) (''{'' @ ''1'') = Some (Inr (''{'' @ [LF, TAB, TAB, TAB], ([TAB, TAB, TAB], 3)))
   \<and> symbol_at ([TAB, TAB], 2) ('','' @ ''1'') = Some (Inr ('','' @ [LF, TAB, TAB], ([TAB, TAB], 2)))"
proof -
  have h: "symbol_scan 0 (scan symbol_rx ''x = {{'') = Inr (''x = {'' @ [LF, TAB] @ ''{'' @ [LF, TAB, TAB], ([TAB, TAB], 2))"
    by code_simp
  show ?thesis using h initializer_mode_rules[OF h, of "''1''"] by simp
qed


subsection \<open>The matcher finds only what the expression denotes\<close>







subsection \<open>Blank lines in the output of \<^verbatim>\<open>Clib.format\<close>\<close>





















inductive_cases sem_NoneOfE: "sem (NoneOf xs) m c c'"
inductive_cases sem_StarE: "sem (Star a) m c c'"































text \<open>
  A line of tabs between two line breaks is what the second alternative of the third
  expression, \<^verbatim>\<open>\n[\t ]+\n\<close>, removes, as in \<^verbatim>\<open>format("{return 0;}")\<close>. When a space follows
  the tabs the first alternative matches first, takes the space and stops before the
  second line break, and the line of tabs stays, as in \<^verbatim>\<open>format("{ return 0; }")\<close>.
\<close>

lemma format_tab_only_line:
  "format ''{return 0;}'' None = Inr (''{'' @ [LF, TAB] @ ''return 0;'' @ [LF] @ ''}'')
   \<and> format ''{ return 0; }'' None = Inr (''{'' @ [LF, TAB] @ ''return 0;'' @ [LF, TAB, LF] @ ''}'')"
  by code_simp

end
